theory Spec2Isabelle
  imports Main "HOL-Library.Monad_Syntax" "HOL-Library.AList"
begin

section \<open>JavaScript values and elements\<close>

text \<open>
  The \<open>type\<close> of an element is a host tag (a string, \<open>"TEXT_ELEMENT"\<close> for text nodes) or a
  function component. A function is a reference: \<open>Fn r\<close> is the function object \<open>r\<close>, and two
  types are the same function exactly when the references agree.
\<close>

datatype etype = Host string | Fn nat

text \<open>
  The values that occur as children and as property values. Numbers are the integers and
  \<open>NaN\<close>. \<open>JFun r\<close> is a reference to a function of the program (an event handler) and
  \<open>JObj r\<close> a reference to an object of the program that has no property \<open>type\<close> or
  \<open>props\<close> and is not an array (a style object, say); a reference is the same as itself
  only. Arrays and element objects are never mutated by the library and are modelled by
  their contents: \<open>JElem t p\<close> is an object \<open>{ type: t, props: p }\<close>. Every array or element
  that is written in a term is an object of its own, as an array or object literal is in
  the program; an object that the program passes twice is passed as a reference \<open>JObj r\<close>.
\<close>

datatype jsval =
    JUndefined
  | JNull
  | JBool bool
  | JNum int
  | JNaN
  | JStr string
  | JFun nat
  | JObj nat
  | JArr "jsval list"
  | JElem etype "(string \<times> jsval) list"

text \<open>
  An object literal is the list of its own properties in insertion order; a well-formed
  one has distinct keys. Its prototype is \<open>Object.prototype\<close>, as for every object that an
  object literal or a spread creates.
\<close>

type_synonym props = "(string \<times> jsval) list"

fun typeof :: "jsval \<Rightarrow> string" where
  "typeof JUndefined = ''undefined''"
| "typeof JNull = ''object''"
| "typeof (JBool b) = ''boolean''"
| "typeof (JNum n) = ''number''"
| "typeof JNaN = ''number''"
| "typeof (JStr s) = ''string''"
| "typeof (JFun r) = ''function''"
| "typeof (JObj r) = ''object''"
| "typeof (JArr xs) = ''object''"
| "typeof (JElem t p) = ''object''"

fun truthy :: "jsval \<Rightarrow> bool" where
  "truthy JUndefined = False"
| "truthy JNull = False"
| "truthy (JBool b) = b"
| "truthy (JNum n) = (n \<noteq> 0)"
| "truthy JNaN = False"
| "truthy (JStr s) = (s \<noteq> [])"
| "truthy (JFun r) = True"
| "truthy (JObj r) = True"
| "truthy (JArr xs) = True"
| "truthy (JElem t p) = True"

text \<open>
  Strict equality \<open>===\<close>: by value for \<open>undefined\<close>, \<open>null\<close>, booleans, numbers and strings,
  except that \<open>NaN\<close> is not equal to itself; by reference for functions and objects. Two
  arrays or elements written in a term are two objects, hence never strictly equal.
\<close>

fun strict_eq :: "jsval \<Rightarrow> jsval \<Rightarrow> bool" where
  "strict_eq JUndefined w = (w = JUndefined)"
| "strict_eq JNull w = (w = JNull)"
| "strict_eq (JBool b) w = (w = JBool b)"
| "strict_eq (JNum n) w = (w = JNum n)"
| "strict_eq JNaN w = False"
| "strict_eq (JStr s) w = (w = JStr s)"
| "strict_eq (JFun r) w = (w = JFun r)"
| "strict_eq (JObj r) w = (w = JObj r)"
| "strict_eq (JArr xs) w = False"
| "strict_eq (JElem t p) w = False"

definition has_key :: "props \<Rightarrow> string \<Rightarrow> bool" where
  "has_key ps key = (map_of ps key \<noteq> None)"

definition get_prop :: "props \<Rightarrow> string \<Rightarrow> jsval" where
  "get_prop ps key = (case map_of ps key of None \<Rightarrow> JUndefined | Some v \<Rightarrow> v)"

definition object_keys :: "props \<Rightarrow> string list" where
  "object_keys ps = map fst ps"

text \<open>
  The properties that every props object inherits from \<open>Object.prototype\<close>. The operator
  \<open>in\<close> finds them, and a property access \<open>obj[key]\<close> yields the inherited member when the
  object has no own property \<open>key\<close>. \<open>Object.keys\<close> lists own properties only.
\<close>

definition object_prototype :: "string list" where
  "object_prototype =
     [''constructor'', ''__defineGetter__'', ''__defineSetter__'', ''hasOwnProperty'',
      ''__lookupGetter__'', ''__lookupSetter__'', ''isPrototypeOf'', ''propertyIsEnumerable'',
      ''toString'', ''valueOf'', ''__proto__'', ''toLocaleString'']"

definition key_in :: "string \<Rightarrow> props \<Rightarrow> bool" where
  "key_in key ps = (has_key ps key \<or> key \<in> set object_prototype)"

text \<open>
  The result of \<open>obj[key]\<close>: the value of the own property, else the member of
  \<open>Object.prototype\<close> of that name, else \<open>undefined\<close>. The members of \<open>Object.prototype\<close> are
  objects of the host, different from each other and from every value of the program.
\<close>

datatype member = Value jsval | Builtin string

definition member_of :: "props \<Rightarrow> string \<Rightarrow> member" where
  "member_of ps key =
     (case map_of ps key of
        Some v \<Rightarrow> Value v
      | None \<Rightarrow> if key \<in> set object_prototype then Builtin key else Value JUndefined)"

fun same_member :: "member \<Rightarrow> member \<Rightarrow> bool" where
  "same_member (Value v) (Value w) = strict_eq v w"
| "same_member (Builtin k) (Builtin k') = (k = k')"
| "same_member (Value v) (Builtin k) = False"
| "same_member (Builtin k) (Value w) = False"

text \<open>The spread \<open>...props\<close> of \<open>null\<close> or \<open>undefined\<close> contributes no property.\<close>

definition spread :: "props option \<Rightarrow> props" where
  "spread ps = (case ps of None \<Rightarrow> [] | Some p \<Rightarrow> p)"

subsection \<open>createElement\<close>

definition createTextElement :: "jsval \<Rightarrow> jsval" where
  "createTextElement text =
     JElem (Host ''TEXT_ELEMENT'') [(''nodeValue'', text), (''children'', JArr [])]"

definition createElement :: "etype \<Rightarrow> props option \<Rightarrow> jsval list \<Rightarrow> jsval" where
  "createElement type props children =
     JElem type
       (AList.update ''children''
          (JArr (map (\<lambda>child. if typeof child = ''object'' then child
                                else createTextElement child) children))
          (spread props))"

section \<open>The DOM adapter\<close>

text \<open>
  The browser's DOM is the library's only output. It is modelled by the trace of the
  calls made to it, in the order they are made; a node is a handle.
\<close>

datatype dom_op =
    CreateElement nat string
  | CreateTextNode nat string
  | SetProperty nat string jsval
  | AddEventListener nat string jsval
  | RemoveEventListener nat string jsval
  | AppendChild nat nat
  | RemoveChild nat nat

text \<open>
  A character is a code point below \<open>U+0100\<close>. \<open>toLowerCase\<close> maps the capital letters among
  them, \<open>A\<close> to \<open>Z\<close> and \<open>U+00C0\<close> to \<open>U+00DE\<close> without the sign \<open>U+00D7\<close>, to the letter 32
  places further, and leaves every other character.
\<close>

definition lower_char :: "char \<Rightarrow> char" where
  "lower_char c =
     (if (65 \<le> (of_char c :: nat) \<and> (of_char c :: nat) \<le> 90)
         \<or> (192 \<le> (of_char c :: nat) \<and> (of_char c :: nat) \<le> 222 \<and> (of_char c :: nat) \<noteq> 215)
      then char_of (of_char c + 32 :: nat) else c)"

definition toLowerCase :: "string \<Rightarrow> string" where
  "toLowerCase s = map lower_char s"

definition isEvent :: "string \<Rightarrow> bool" where
  "isEvent key = (take 2 key = ''on'')"

definition isProperty :: "string \<Rightarrow> bool" where
  "isProperty key = (key \<noteq> ''children'' \<and> \<not> isEvent key)"

definition isNew :: "props \<Rightarrow> props \<Rightarrow> string \<Rightarrow> bool" where
  "isNew prev next key = (\<not> same_member (member_of prev key) (member_of next key))"

definition isGone :: "props \<Rightarrow> props \<Rightarrow> string \<Rightarrow> bool" where
  "isGone prev next key = (\<not> key_in key next)"

definition eventType :: "string \<Rightarrow> string" where
  "eventType name = drop 2 (toLowerCase name)"

text \<open>\<open>updateDom node prevProps nextProps\<close> is the list of DOM calls of the four passes.\<close>

definition updateDom :: "nat \<Rightarrow> props \<Rightarrow> props \<Rightarrow> dom_op list" where
  "updateDom node prevProps nextProps =
     map (\<lambda>name. RemoveEventListener node (eventType name) (get_prop prevProps name))
       (filter (\<lambda>key. \<not> key_in key nextProps \<or> isNew prevProps nextProps key)
          (filter isEvent (object_keys prevProps)))
     @ map (\<lambda>name. SetProperty node name (JStr ''''))
       (filter (isGone prevProps nextProps) (filter isProperty (object_keys prevProps)))
     @ map (\<lambda>name. SetProperty node name (get_prop nextProps name))
       (filter (isNew prevProps nextProps) (filter isProperty (object_keys nextProps)))
     @ map (\<lambda>name. AddEventListener node (eventType name) (get_prop nextProps name))
       (filter (isNew prevProps nextProps) (filter isEvent (object_keys nextProps)))"


section \<open>Fibers and the global state\<close>

datatype effect = PLACEMENT | UPDATE | DELETION

text \<open>
  A fiber is a mutable object; the other fibers it points to are references into the
  store of fibers. A field that was never assigned (\<open>undefined\<close>) or holds \<open>null\<close> is
  \<open>None\<close>. The field \<open>dom\<close> holds the handle of a DOM node, \<open>hooks\<close> the references of
  the hook objects of a function component.
\<close>

record fiber =
  type :: "etype option"
  props :: "props option"
  dom' :: "nat option"
  parent :: "nat option"
  child :: "nat option"
  sibling :: "nat option"
  alternate :: "nat option"
  effectTag :: "effect option"
  hooks :: "nat list option"

record hook =
  state :: jsval
  queue :: "(jsval \<Rightarrow> jsval) list"

text \<open>
  The module's variables, the two stores of objects (a reference is an index; objects are
  allocated at the end and never freed) and the DOM: the trace of the calls made so far
  and the handle that the next created node gets.
\<close>

record didact =
  fibers :: "fiber list"
  hookObjs :: "hook list"
  nextUnitOfWork :: "nat option"
  currentRoot :: "nat option"
  wipRoot :: "nat option"
  deletions :: "nat list option"
  wipFiber :: "nat option"
  hookIndex :: nat
  domLog :: "dom_op list"
  domNext :: nat

definition initial_state :: didact where
  "initial_state = \<lparr> fibers = [], hookObjs = [], nextUnitOfWork = None, currentRoot = None,
     wipRoot = None, deletions = None, wipFiber = None, hookIndex = 0, domLog = [],
     domNext = 1 \<rparr>"

definition empty_fiber :: fiber where
  "empty_fiber = \<lparr> type = None, props = None, dom' = None, parent = None, child = None,
     sibling = None, alternate = None, effectTag = None, hooks = None \<rparr>"

definition fiber_at :: "didact \<Rightarrow> nat \<Rightarrow> fiber option" where
  "fiber_at s a = (if a < length (fibers s) then Some (fibers s ! a) else None)"

definition hook_at :: "didact \<Rightarrow> nat \<Rightarrow> hook option" where
  "hook_at s h = (if h < length (hookObjs s) then Some (hookObjs s ! h) else None)"

definition modify :: "nat \<Rightarrow> (fiber \<Rightarrow> fiber) \<Rightarrow> didact \<Rightarrow> didact option" where
  "modify a g s =
     (if a < length (fibers s) then Some (s\<lparr>fibers := (fibers s)[a := g (fibers s ! a)]\<rparr>)
      else None)"

definition alloc :: "fiber \<Rightarrow> didact \<Rightarrow> nat \<times> didact" where
  "alloc f s = (length (fibers s), s\<lparr>fibers := fibers s @ [f]\<rparr>)"

definition emit :: "dom_op list \<Rightarrow> didact \<Rightarrow> didact" where
  "emit ops s = s\<lparr>domLog := domLog s @ ops\<rparr>"

section \<open>The reconciler\<close>

text \<open>
  \<open>element.type\<close> and \<open>element.props\<close> of a truthy list entry: only an element object has
  them, every other value yields \<open>undefined\<close>.
\<close>

fun elem_type :: "jsval \<Rightarrow> etype option" where
  "elem_type (JElem t p) = Some t"
| "elem_type v = None"

fun elem_props :: "jsval \<Rightarrow> props option" where
  "elem_props (JElem t p) = Some p"
| "elem_props v = None"

text \<open>
  One turn of the loop of \<open>reconcileChildren\<close>, for the entry \<open>element\<close> at position \<open>index\<close>
  (\<open>JUndefined\<close> past the end of the list) and the old fiber \<open>oldFiber\<close>, in the order of the
  source: the comparison of the types, the fiber object that is created (an \<open>UPDATE\<close>, a
  \<open>PLACEMENT\<close>, or none), the deletion of the old fiber, and the link from the parent or
  from the previous sibling. \<open>None\<close> is a \<open>TypeError\<close>: a push onto the deletions list that
  is still \<open>null\<close>, or an assignment to the \<open>sibling\<close> of \<open>null\<close>.
\<close>

definition sameType :: "fiber option \<Rightarrow> jsval \<Rightarrow> bool" where
  "sameType old element =
     (case old of None \<Rightarrow> False
      | Some f \<Rightarrow> truthy element \<and> elem_type element = type f)"

definition newFiberOf :: "nat \<Rightarrow> nat option \<Rightarrow> fiber option \<Rightarrow> jsval \<Rightarrow> fiber option" where
  "newFiberOf wip oldFiber old element =
     (if sameType old element then
        Some \<lparr> type = type (the old), props = elem_props element, dom' = dom' (the old),
               parent = Some wip, child = None, sibling = None, alternate = oldFiber,
               effectTag = Some UPDATE, hooks = None \<rparr>
      else if truthy element then
        Some \<lparr> type = elem_type element, props = elem_props element, dom' = None,
               parent = Some wip, child = None, sibling = None, alternate = None,
               effectTag = Some PLACEMENT, hooks = None \<rparr>
      else None)"

definition markDeletion :: "nat option \<Rightarrow> bool \<Rightarrow> didact \<Rightarrow> didact option" where
  "markDeletion oldFiber same s =
     (case oldFiber of
        Some a \<Rightarrow>
          if same then Some s
          else do {
            s' \<leftarrow> modify a (\<lambda>f. f\<lparr>effectTag := Some DELETION\<rparr>) s;
            ds \<leftarrow> deletions s';
            Some (s'\<lparr>deletions := Some (ds @ [a])\<rparr>)
          }
      | None \<Rightarrow> Some s)"

definition linkFiber ::
  "nat \<Rightarrow> nat \<Rightarrow> jsval \<Rightarrow> nat option \<Rightarrow> nat option \<Rightarrow> didact \<Rightarrow> didact option" where
  "linkFiber wip index element prevSibling newFiber s =
     (if index = 0 then modify wip (\<lambda>f. f\<lparr>child := newFiber\<rparr>) s
      else if truthy element then
        do {
          p \<leftarrow> prevSibling;
          modify p (\<lambda>f. f\<lparr>sibling := newFiber\<rparr>) s
        }
      else Some s)"

definition reconcile_step ::
  "nat \<Rightarrow> jsval \<Rightarrow> nat \<Rightarrow> nat option \<Rightarrow> nat option \<Rightarrow> didact
    \<Rightarrow> (nat option \<times> nat option \<times> didact) option" where
  "reconcile_step wip element index oldFiber prevSibling s =
     do {
       old \<leftarrow> (case oldFiber of None \<Rightarrow> Some None
               | Some a \<Rightarrow> map_option Some (fiber_at s a));
       let (newFiber, s1) =
         (case newFiberOf wip oldFiber old element of
            None \<Rightarrow> (None, s)
          | Some f \<Rightarrow> (case alloc f s of (n, s') \<Rightarrow> (Some n, s')));
       s2 \<leftarrow> markDeletion oldFiber (sameType old element) s1;
       s3 \<leftarrow> linkFiber wip index element prevSibling newFiber s2;
       Some (newFiber, (case old of None \<Rightarrow> None | Some f \<Rightarrow> sibling f), s3)
     }"

partial_function (option) reconcile_loop ::
  "nat \<Rightarrow> jsval list \<Rightarrow> nat \<Rightarrow> nat option \<Rightarrow> nat option \<Rightarrow> didact \<Rightarrow> didact option" where
  "reconcile_loop wip elements index oldFiber prevSibling s =
     (if index < length elements \<or> oldFiber \<noteq> None then
        do {
          (newFiber, oldFiber', s') \<leftarrow>
            reconcile_step wip
              (if index < length elements then elements ! index else JUndefined)
              index oldFiber prevSibling s;
          reconcile_loop wip elements (index + 1) oldFiber' newFiber s'
        }
      else Some s)"

declare reconcile_loop.simps [code]

definition reconcileChildren :: "nat \<Rightarrow> jsval list \<Rightarrow> didact \<Rightarrow> didact option" where
  "reconcileChildren wip elements s =
     do {
       f \<leftarrow> fiber_at s wip;
       oldFiber \<leftarrow> (case alternate f of None \<Rightarrow> Some None
                    | Some alt \<Rightarrow> map_option child (fiber_at s alt));
       reconcile_loop wip elements 0 oldFiber None s
     }"

section \<open>The state hook\<close>

text \<open>
  The setter that \<open>useState\<close> returns is a closure over the hook object it created; it is
  represented by the reference of that hook. An action is a function from the old state
  to the new one.
\<close>

definition useState :: "jsval \<Rightarrow> didact \<Rightarrow> ((jsval \<times> nat) \<times> didact) option" where
  "useState initial s =
     do {
       w \<leftarrow> wipFiber s;
       wf \<leftarrow> fiber_at s w;
       oldHook \<leftarrow>
         (case alternate wf of None \<Rightarrow> Some None
          | Some alt \<Rightarrow>
              do {
                af \<leftarrow> fiber_at s alt;
                (case hooks af of None \<Rightarrow> Some None
                 | Some hs \<Rightarrow>
                     if hookIndex s < length hs
                     then map_option Some (hook_at s (hs ! hookIndex s))
                     else Some None)
              });
       let actions = (case oldHook of None \<Rightarrow> [] | Some oh \<Rightarrow> queue oh);
       let hook = \<lparr> state = foldl (\<lambda>st action. action st)
                      (case oldHook of None \<Rightarrow> initial | Some oh \<Rightarrow> state oh) actions,
                    queue = [] \<rparr>;
       hs \<leftarrow> hooks wf;
       let h = length (hookObjs s);
       s' \<leftarrow> modify w (\<lambda>f. f\<lparr>hooks := Some (hs @ [h])\<rparr>)
              (s\<lparr>hookObjs := hookObjs s @ [hook]\<rparr>);
       Some ((state hook, h), s'\<lparr>hookIndex := hookIndex s + 1\<rparr>)
     }"

definition setState :: "nat \<Rightarrow> (jsval \<Rightarrow> jsval) \<Rightarrow> didact \<Rightarrow> didact option" where
  "setState h action s =
     do {
       hk \<leftarrow> hook_at s h;
       let s1 = s\<lparr>hookObjs := (hookObjs s)[h := hk\<lparr>queue := queue hk @ [action]\<rparr>]\<rparr>;
       c \<leftarrow> currentRoot s1;
       cf \<leftarrow> fiber_at s1 c;
       let (r, s2) = alloc (empty_fiber\<lparr>dom' := dom' cf, props := props cf,
                              alternate := Some c\<rparr>) s1;
       Some (s2\<lparr>wipRoot := Some r, nextUnitOfWork := Some r, deletions := Some []\<rparr>)
     }"

text \<open>
  \<open>render\<close> creates the root of a new wip tree for the element; the setter above does
  the same for the props of the current root.
\<close>

definition render :: "jsval \<Rightarrow> nat \<Rightarrow> didact \<Rightarrow> didact" where
  "render element container s =
     (case alloc (empty_fiber\<lparr>dom' := Some container,
                    props := Some [(''children'', JArr [element])],
                    alternate := currentRoot s\<rparr>) s of
        (r, s1) \<Rightarrow> s1\<lparr>wipRoot := Some r, deletions := Some [], nextUnitOfWork := Some r\<rparr>)"

text \<open>
  The body of a function component: it calls \<open>useState\<close> some number of times, each time
  going on with the state and the setter it got, and returns its child. On its way it may
  call a setter it holds (with an action) or \<open>render\<close>, as any code of the program may.
\<close>

datatype comp =
    Return jsval
  | UseState jsval "jsval \<times> nat \<Rightarrow> comp"
  | CallSetter nat "jsval \<Rightarrow> jsval" comp
  | CallRender jsval nat comp

primrec run_comp :: "comp \<Rightarrow> didact \<Rightarrow> (jsval \<times> didact) option" where
  "run_comp (Return v) s = Some (v, s)"
| "run_comp (UseState initial k) s =
     (case useState initial s of None \<Rightarrow> None
      | Some (r, s') \<Rightarrow> run_comp (k r) s')"
| "run_comp (CallSetter h action k) s =
     (case setState h action s of None \<Rightarrow> None
      | Some s' \<Rightarrow> run_comp k s')"
| "run_comp (CallRender element container k) s = run_comp k (render element container s)"

section \<open>Units of work\<close>

definition createDom :: "fiber \<Rightarrow> didact \<Rightarrow> (nat \<times> didact) option" where
  "createDom f s =
     do {
       create \<leftarrow>
         (case type f of
            None \<Rightarrow> Some (CreateElement (domNext s) ''undefined'')
          | Some (Host tag) \<Rightarrow>
              Some (if tag = ''TEXT_ELEMENT'' then CreateTextNode (domNext s) ''''
                    else CreateElement (domNext s) tag)
          | Some (Fn r) \<Rightarrow> None);
       p \<leftarrow> props f;
       Some (domNext s,
             emit (create # updateDom (domNext s) [] p) (s\<lparr>domNext := domNext s + 1\<rparr>))
     }"

text \<open>\<open>Array.prototype.flat\<close> with the default depth 1.\<close>

definition flat :: "jsval list \<Rightarrow> jsval list" where
  "flat xs = concat (map (\<lambda>x. case x of JArr ys \<Rightarrow> ys | _ \<Rightarrow> [x]) xs)"

definition updateHostComponent :: "nat \<Rightarrow> didact \<Rightarrow> didact option" where
  "updateHostComponent a s =
     do {
       f \<leftarrow> fiber_at s a;
       s1 \<leftarrow> (if dom' f = None then
                do {
                  (node, s') \<leftarrow> createDom f s;
                  modify a (\<lambda>f. f\<lparr>dom' := Some node\<rparr>) s'
                }
              else Some s);
       p \<leftarrow> props f;
       children \<leftarrow> (case map_of p ''children'' of Some (JArr cs) \<Rightarrow> Some cs | _ \<Rightarrow> None);
       reconcileChildren a (flat children) s1
     }"

definition updateFunctionComponent ::
  "(nat \<Rightarrow> props option \<Rightarrow> comp) \<Rightarrow> nat \<Rightarrow> didact \<Rightarrow> didact option" where
  "updateFunctionComponent comps a s =
     do {
       s1 \<leftarrow> modify a (\<lambda>f. f\<lparr>hooks := Some []\<rparr>) (s\<lparr>wipFiber := Some a, hookIndex := 0\<rparr>);
       f \<leftarrow> fiber_at s1 a;
       r \<leftarrow> (case type f of Some (Fn r) \<Rightarrow> Some r | _ \<Rightarrow> None);
       (v, s2) \<leftarrow> run_comp (comps r (props f)) s1;
       reconcileChildren a [v] s2
     }"

text \<open>
  The search for the next unit of work: the sibling of the nearest fiber on the parent
  chain that has one. \<open>Some None\<close> is the result \<open>undefined\<close>: there is no fiber left.
\<close>

partial_function (option) nextSibling :: "nat option \<Rightarrow> didact \<Rightarrow> nat option option" where
  "nextSibling nextFiber s =
     (case nextFiber of None \<Rightarrow> Some None
      | Some a \<Rightarrow>
          do {
            f \<leftarrow> fiber_at s a;
            (case sibling f of Some b \<Rightarrow> Some (Some b)
             | None \<Rightarrow> nextSibling (parent f) s)
          })"

declare nextSibling.simps [code]

definition isFunctionComponent :: "fiber \<Rightarrow> bool" where
  "isFunctionComponent f = (case type f of Some (Fn r) \<Rightarrow> True | _ \<Rightarrow> False)"

definition performUnitOfWork ::
  "(nat \<Rightarrow> props option \<Rightarrow> comp) \<Rightarrow> nat \<Rightarrow> didact \<Rightarrow> (nat option \<times> didact) option" where
  "performUnitOfWork comps a s =
     do {
       f \<leftarrow> fiber_at s a;
       s1 \<leftarrow> (if isFunctionComponent f then updateFunctionComponent comps a s
              else updateHostComponent a s);
       f1 \<leftarrow> fiber_at s1 a;
       (case child f1 of Some c \<Rightarrow> Some (Some c, s1)
        | None \<Rightarrow> do { n \<leftarrow> nextSibling (Some a) s1; Some (n, s1) })
     }"

section \<open>The commit phase\<close>

partial_function (option) domParentOf :: "nat option \<Rightarrow> didact \<Rightarrow> nat option" where
  "domParentOf domParentFiber s =
     do {
       a \<leftarrow> domParentFiber;
       f \<leftarrow> fiber_at s a;
       (case dom' f of Some d \<Rightarrow> Some d | None \<Rightarrow> domParentOf (parent f) s)
     }"

declare domParentOf.simps [code]

definition commitFiber :: "fiber \<Rightarrow> nat \<Rightarrow> didact \<Rightarrow> didact option" where
  "commitFiber f domParent s =
     (if effectTag f = Some PLACEMENT \<and> dom' f \<noteq> None then
        Some (emit [AppendChild domParent (the (dom' f))] s)
      else if effectTag f = Some UPDATE \<and> dom' f \<noteq> None then
        do {
          alt \<leftarrow> alternate f;
          af \<leftarrow> fiber_at s alt;
          prevProps \<leftarrow> props af;
          nextProps \<leftarrow> props f;
          Some (emit (updateDom (the (dom' f)) prevProps nextProps) s)
        }
      else if effectTag f = Some DELETION then
        do {
          d \<leftarrow> dom' f;
          Some (emit [RemoveChild domParent d] s)
        }
      else Some s)"

partial_function (option) commitWork :: "nat option \<Rightarrow> didact \<Rightarrow> didact option" where
  "commitWork fiber s =
     (case fiber of None \<Rightarrow> Some s
      | Some a \<Rightarrow>
          do {
            f \<leftarrow> fiber_at s a;
            domParent \<leftarrow> domParentOf (parent f) s;
            s1 \<leftarrow> commitFiber f domParent s;
            s2 \<leftarrow> commitWork (child f) s1;
            commitWork (sibling f) s2
          })"

declare commitWork.simps [code]

definition commitRoot :: "didact \<Rightarrow> didact option" where
  "commitRoot s =
     do {
       r \<leftarrow> wipRoot s;
       rf \<leftarrow> fiber_at s r;
       s1 \<leftarrow> commitWork (child rf) s;
       Some (s1\<lparr>currentRoot := wipRoot s1, wipRoot := None\<rparr>)
     }"

section \<open>The work loop\<close>

text \<open>
  The loop of \<open>workLoop\<close>. The deadline \<open>n\<close> is the number of readings of
  \<open>timeRemaining()\<close> that are at least 1 before the first that is below 1: the loop
  performs a unit, reads the deadline, and leaves at the first reading below 1.
\<close>

primrec work :: "(nat \<Rightarrow> props option \<Rightarrow> comp) \<Rightarrow> nat \<Rightarrow> didact \<Rightarrow> didact option" where
  "work comps 0 s =
     (case nextUnitOfWork s of None \<Rightarrow> Some s
      | Some a \<Rightarrow>
          do {
            (n, s1) \<leftarrow> performUnitOfWork comps a s;
            Some (s1\<lparr>nextUnitOfWork := n\<rparr>)
          })"
| "work comps (Suc deadline) s =
     (case nextUnitOfWork s of None \<Rightarrow> Some s
      | Some a \<Rightarrow>
          do {
            (n, s1) \<leftarrow> performUnitOfWork comps a s;
            work comps deadline (s1\<lparr>nextUnitOfWork := n\<rparr>)
          })"

definition workLoop :: "(nat \<Rightarrow> props option \<Rightarrow> comp) \<Rightarrow> nat \<Rightarrow> didact \<Rightarrow> didact option" where
  "workLoop comps deadline s =
     do {
       s1 \<leftarrow> work comps deadline s;
       if nextUnitOfWork s1 = None \<and> wipRoot s1 \<noteq> None then commitRoot s1 else Some s1
     }"

text \<open>The host calls \<open>workLoop\<close> again and again, each time with a deadline of its own.\<close>

fun idle :: "(nat \<Rightarrow> props option \<Rightarrow> comp) \<Rightarrow> nat list \<Rightarrow> didact \<Rightarrow> didact option" where
  "idle comps [] s = Some s"
| "idle comps (deadline # ds) s =
     (case workLoop comps deadline s of None \<Rightarrow> None | Some s' \<Rightarrow> idle comps ds s')"

section \<open>Example programs\<close>

text \<open>A page without function components.\<close>

definition no_comps :: "nat \<Rightarrow> props option \<Rightarrow> comp" where
  "no_comps r p = Return JNull"

definition two_items :: jsval where
  "two_items = createElement (Host ''div'') None
     [createElement (Host ''h1'') None [], createElement (Host ''h2'') None []]"

definition one_item :: jsval where
  "one_item = createElement (Host ''div'') None [createElement (Host ''h1'') None []]"

text \<open>
  The counter of the demo, starting at 0:
  \<^verbatim>\<open>function Counter() {
    const [state, setState] = Didact.useState(0);
    return <h1 onClick={() => setState((c) => c + 1)}>Count: {state}</h1>;
  }\<close>
  The handler is a new closure in every render; it is named by the setter it calls.
\<close>

definition Counter :: "props option \<Rightarrow> comp" where
  "Counter p = UseState (JNum 0) (\<lambda>(state, setState).
     Return (createElement (Host ''h1'') (Some [(''onClick'', JFun setState)])
               [JStr ''Count: '', state]))"

definition counter_comps :: "nat \<Rightarrow> props option \<Rightarrow> comp" where
  "counter_comps r = Counter"

definition counter_page :: jsval where
  "counter_page = createElement (Host ''div'') None [createElement (Fn 0) None []]"

definition increment :: "jsval \<Rightarrow> jsval" where
  "increment c = (case c of JNum n \<Rightarrow> JNum (n + 1) | _ \<Rightarrow> c)"

definition twice :: "jsval \<Rightarrow> jsval" where
  "twice c = (case c of JNum n \<Rightarrow> JNum (2 * n) | _ \<Rightarrow> c)"

text \<open>
  The counter in the middle of its second render: it was mounted, its setter was called
  with \<open>increment\<close> and then with \<open>twice\<close>, the root and the \<open>div\<close> of the new tree were
  processed, and \<open>updateFunctionComponent\<close> is about to call the component (fiber 9).
\<close>

definition counter_in_render :: "didact option" where
  "counter_in_render =
     do {
       s0 \<leftarrow> idle counter_comps [10] (render counter_page 0 initial_state);
       s1 \<leftarrow> setState 0 increment s0;
       s2 \<leftarrow> setState 0 twice s1;
       s3 \<leftarrow> work counter_comps 1 s2;
       modify 9 (\<lambda>f. f\<lparr>hooks := Some []\<rparr>) (s3\<lparr>wipFiber := Some 9, hookIndex := 0\<rparr>)
     }"

text \<open>
  The page \<open>two_items\<close> when the root, the \<open>div\<close> and the \<open>h1\<close> have been processed and the
  cursor is on the \<open>h2\<close> (fiber 3).
\<close>

definition two_items_at_h2 :: didact where
  "two_items_at_h2 =
     (case work no_comps 2 (render two_items 0 initial_state) of
        Some s \<Rightarrow> s | None \<Rightarrow> initial_state)"

text \<open>
  A list whose items are given as one array, as a host element and as the result of a
  function component.
\<close>

definition list_page :: jsval where
  "list_page = createElement (Host ''ul'') None
     [JArr [createElement (Host ''li'') None [JStr ''a''],
            createElement (Host ''li'') None [JStr ''b'']]]"

definition list_comps :: "nat \<Rightarrow> props option \<Rightarrow> comp" where
  "list_comps r p = Return (JArr [createElement (Host ''li'') None [JStr ''a''],
                                  createElement (Host ''li'') None [JStr ''b'']])"

definition list_comp_page :: jsval where
  "list_comp_page = createElement (Fn 0) None []"

text \<open>The page \<open>list_page\<close> when the root has been processed and the cursor is on the \<open>ul\<close>.\<close>

definition list_page_at_ul :: didact where
  "list_page_at_ul =
     (case work no_comps 0 (render list_page 0 initial_state) of
        Some s \<Rightarrow> s | None \<Rightarrow> initial_state)"

text \<open>The same for \<open>list_comp_page\<close>, with the cursor on the function component.\<close>

definition list_comp_page_at_comp :: didact where
  "list_comp_page_at_comp =
     (case work list_comps 0 (render list_comp_page 0 initial_state) of
        Some s \<Rightarrow> s | None \<Rightarrow> initial_state)"

text \<open>
  The second render of the deletion example when its root has been processed: the cursor
  is on the new fiber of the \<open>div\<close> (fiber 5), whose alternate (fiber 1) has the old fibers of
  the \<open>h1\<close> and the \<open>h2\<close> (fibers 2 and 3) as children.
\<close>

definition one_item_at_div :: didact where
  "one_item_at_div =
     (case do { s \<leftarrow> idle no_comps [10] (render two_items 0 initial_state);
                work no_comps 0 (render one_item 0 s) } of
        Some s \<Rightarrow> s | None \<Rightarrow> initial_state)"

text \<open>
  The page of the counter when the root and the \<open>div\<close> have been processed and the cursor
  is on the function component (fiber 2).
\<close>

definition counter_page_at_comp :: didact where
  "counter_page_at_comp =
     (case work counter_comps 1 (render counter_page 0 initial_state) of
        Some s \<Rightarrow> s | None \<Rightarrow> initial_state)"

section \<open>Notions of the specification\<close>

text \<open>
  The hook of the alternate fiber at the position of the current call of \<open>useState\<close>, if
  there is an alternate with a hook at that position.
\<close>

definition alternate_hook :: "didact \<Rightarrow> hook option" where
  "alternate_hook s =
     do {
       w \<leftarrow> wipFiber s;
       wf \<leftarrow> fiber_at s w;
       alt \<leftarrow> alternate wf;
       af \<leftarrow> fiber_at s alt;
       hs \<leftarrow> hooks af;
       if hookIndex s < length hs then hook_at s (hs ! hookIndex s) else None
     }"

text \<open>Replaying a queue of actions, in the order of the queue, from a baseline.\<close>

fun replay :: "jsval \<Rightarrow> (jsval \<Rightarrow> jsval) list \<Rightarrow> jsval" where
  "replay baseline [] = baseline"
| "replay baseline (action # actions) = replay (action baseline) actions"

text \<open>
  \<open>chain link s start as\<close>: following the field \<open>link\<close> from the reference \<open>start\<close> visits
  exactly the fibers \<open>as\<close>, in that order, and ends at \<open>null\<close>. With \<open>sibling\<close> these are a
  fiber and its later siblings, with \<open>parent\<close> a fiber and its ancestors.
\<close>

fun chain :: "(fiber \<Rightarrow> nat option) \<Rightarrow> didact \<Rightarrow> nat option \<Rightarrow> nat list \<Rightarrow> bool" where
  "chain link s start [] = (start = None)"
| "chain link s start (a # as) =
     (start = Some a \<and> a < length (fibers s) \<and> chain link s (link (fibers s ! a)) as)"

text \<open>
  The successor of a fiber in depth-first pre-order, given the fiber and its ancestors
  \<open>as\<close> (nearest first): its child if it has one, else the sibling of the nearest fiber of
  \<open>as\<close> that has a sibling, else none.
\<close>

fun nearest_sibling :: "didact \<Rightarrow> nat list \<Rightarrow> nat option" where
  "nearest_sibling s [] = None"
| "nearest_sibling s (a # as) =
     (case sibling (fibers s ! a) of Some b \<Rightarrow> Some b | None \<Rightarrow> nearest_sibling s as)"

definition preorder_next :: "didact \<Rightarrow> nat list \<Rightarrow> nat option" where
  "preorder_next s as =
     (case as of [] \<Rightarrow> None
      | a # _ \<Rightarrow> (case child (fibers s ! a) of Some c \<Rightarrow> Some c
                  | None \<Rightarrow> nearest_sibling s as))"

text \<open>
  A DOM call that only builds a node created since the handle \<open>base\<close> was the next one:
  its creation, a property assignment or an added listener. Such a node is not attached
  to the page, which changes only by \<open>appendChild\<close>, \<open>removeChild\<close> or a call on an older
  node.
\<close>

fun detached :: "nat \<Rightarrow> dom_op \<Rightarrow> bool" where
  "detached base (CreateElement node tag) = (base \<le> node)"
| "detached base (CreateTextNode node text) = (base \<le> node)"
| "detached base (SetProperty node key v) = (base \<le> node)"
| "detached base (AddEventListener node e h) = (base \<le> node)"
| "detached base (RemoveEventListener node e h) = False"
| "detached base (AppendChild p c) = False"
| "detached base (RemoveChild p c) = False"

text \<open>
  The outcome of \<open>reconcileChildren\<close> by positions, for the list \<open>es\<close> of new elements and
  the list \<open>olds\<close> of the old fibers (the child of the alternate and its siblings), in a
  state \<open>s\<close> whose list of deletions holds \<open>ds\<close>. Position \<open>j\<close> is matched when both lists
  have an entry there and the types are the same.
\<close>

definition matched :: "didact \<Rightarrow> jsval list \<Rightarrow> nat list \<Rightarrow> nat \<Rightarrow> bool" where
  "matched s es olds j =
     (j < length es \<and> j < length olds \<and> elem_type (es ! j) = type (fibers s ! (olds ! j)))"

text \<open>The old fibers at the unmatched positions below \<open>i\<close>, in order.\<close>

definition deleted_upto :: "didact \<Rightarrow> jsval list \<Rightarrow> nat list \<Rightarrow> nat \<Rightarrow> nat list" where
  "deleted_upto s es olds i =
     map (\<lambda>j. olds ! j) (filter (\<lambda>j. \<not> matched s es olds j) [0..<min i (length olds)])"

text \<open>
  The new fiber of position \<open>j\<close> after \<open>i\<close> turns of the loop: an \<open>UPDATE\<close> that keeps the type
  and the node of the old fiber and points to it when the position is matched, else a
  \<open>PLACEMENT\<close> without node or alternate; in both cases with the props of the element. The
  new fibers lie behind the fibers of \<open>s\<close>, one per element, linked as siblings.
\<close>

definition new_fiber :: "didact \<Rightarrow> nat \<Rightarrow> jsval list \<Rightarrow> nat list \<Rightarrow> nat \<Rightarrow> nat \<Rightarrow> fiber" where
  "new_fiber s wip es olds i j =
     \<lparr> type = (if matched s es olds j then type (fibers s ! (olds ! j)) else elem_type (es ! j)),
       props = elem_props (es ! j),
       dom' = (if matched s es olds j then dom' (fibers s ! (olds ! j)) else None),
       parent = Some wip,
       child = None,
       sibling = (if Suc j < min i (length es) then Some (length (fibers s) + Suc j) else None),
       alternate = (if matched s es olds j then Some (olds ! j) else None),
       effectTag = Some (if matched s es olds j then UPDATE else PLACEMENT),
       hooks = None \<rparr>"

text \<open>
  A fiber of \<open>s\<close> after \<open>i\<close> turns: tagged \<open>DELETION\<close> if it is one of the unmatched old fibers,
  and, for the parent, with the first new fiber as its child (none if there is no element).
\<close>

definition old_fiber :: "didact \<Rightarrow> nat \<Rightarrow> jsval list \<Rightarrow> nat list \<Rightarrow> nat \<Rightarrow> nat \<Rightarrow> fiber" where
  "old_fiber s wip es olds i k =
     (fibers s ! k)
       \<lparr> child := (if k = wip \<and> 0 < i
                   then (if es = [] then None else Some (length (fibers s)))
                   else child (fibers s ! k)),
         effectTag := (if k \<in> set (deleted_upto s es olds i) then Some DELETION
                       else effectTag (fibers s ! k)) \<rparr>"

definition reconcile_upto ::
  "didact \<Rightarrow> nat \<Rightarrow> jsval list \<Rightarrow> nat list \<Rightarrow> nat list \<Rightarrow> nat \<Rightarrow> didact" where
  "reconcile_upto s wip es olds ds i =
     s\<lparr> fibers := map (\<lambda>k. if k < length (fibers s) then old_fiber s wip es olds i k
                             else new_fiber s wip es olds i (k - length (fibers s)))
                      [0..<length (fibers s) + min i (length es)],
        deletions := Some (ds @ deleted_upto s es olds i) \<rparr>"

definition reconciled :: "didact \<Rightarrow> nat \<Rightarrow> jsval list \<Rightarrow> nat list \<Rightarrow> nat list \<Rightarrow> didact" where
  "reconciled s wip es olds ds = reconcile_upto s wip es olds ds (max (length es) (length olds))"

text \<open>The call that creates the DOM node of a host fiber.\<close>

definition creation :: "fiber \<Rightarrow> nat \<Rightarrow> dom_op" where
  "creation f node =
     (case type f of
        Some (Host tag) \<Rightarrow> if tag = ''TEXT_ELEMENT'' then CreateTextNode node ''''
                           else CreateElement node tag
      | _ \<Rightarrow> CreateElement node ''undefined'')"

section \<open>Frame conditions\<close>

text \<open>\<open>heap_only s s'\<close>: the states differ at most in the fibers and the list of deletions.\<close>

definition heap_only :: "didact \<Rightarrow> didact \<Rightarrow> bool" where
  "heap_only s s' = (s' = s\<lparr>fibers := fibers s', deletions := deletions s'\<rparr>)"

definition erase_links :: "fiber \<Rightarrow> fiber" where
  "erase_links f = f\<lparr>child := None, sibling := None, effectTag := None\<rparr>"

text \<open>
  \<open>fibers_kept fs fs'\<close>: every fiber of \<open>fs\<close> is still there, the same but for its \<open>child\<close>,
  its \<open>sibling\<close> and its \<open>effectTag\<close>.
\<close>

definition fibers_kept :: "fiber list \<Rightarrow> fiber list \<Rightarrow> bool" where
  "fibers_kept fs fs' =
     (length fs \<le> length fs' \<and> (\<forall>a < length fs. erase_links (fs' ! a) = erase_links (fs ! a)))"

text \<open>
  \<open>builds_only s s'\<close>: from \<open>s\<close> to \<open>s'\<close> the two roots are the same and the DOM calls made
  only build nodes created in between.
\<close>

definition builds_only :: "didact \<Rightarrow> didact \<Rightarrow> bool" where
  "builds_only s s' =
     (currentRoot s' = currentRoot s \<and> wipRoot s' = wipRoot s \<and> domNext s \<le> domNext s'
      \<and> (\<exists>ops. domLog s' = domLog s @ ops \<and> list_all (detached (domNext s)) ops))"

text \<open>
  \<open>dom_kept s s'\<close>: no DOM call was made and every fiber of \<open>s\<close> has the node it had.
\<close>

definition dom_kept :: "didact \<Rightarrow> didact \<Rightarrow> bool" where
  "dom_kept s s' =
     (domLog s' = domLog s \<and> domNext s' = domNext s \<and> length (fibers s) \<le> length (fibers s')
      \<and> (\<forall>b < length (fibers s). dom' (fibers s' ! b) = dom' (fibers s ! b)))"

text \<open>
  \<open>shape_kept s s'\<close>: every fiber of \<open>s\<close> is still there, the same but for its hooks and
  its DOM node.
\<close>

definition shape_kept :: "didact \<Rightarrow> didact \<Rightarrow> bool" where
  "shape_kept s s' =
     (length (fibers s) \<le> length (fibers s')
      \<and> (\<forall>k<length (fibers s).
            (fibers s' ! k)\<lparr>hooks := hooks (fibers s ! k), dom' := dom' (fibers s ! k)\<rparr>
              = fibers s ! k))"

subsection \<open>Units of work, one at a time\<close>

text \<open>
  The work loop performs one unit after the other; \<open>units\<close> runs a given number of them.
\<close>

primrec units :: "(nat \<Rightarrow> props option \<Rightarrow> comp) \<Rightarrow> nat \<Rightarrow> didact \<Rightarrow> didact option" where
  "units comps 0 s = Some s"
| "units comps (Suc k) s = work comps 0 s \<bind> units comps k"

subsection \<open>Trees of host elements\<close>

text \<open>
  An element tree all of whose nodes are host elements (text elements included) with an
  array of children: what \<open>createElement\<close> builds from tag names, strings and numbers.
  The children are taken as \<open>updateHostComponent\<close> takes them, flattened by one level.
\<close>

function (sequential) host_tree :: "jsval \<Rightarrow> bool" where
  "host_tree (JElem (Host tag) ps) =
     (case map_of ps ''children'' of
        Some (JArr cs) \<Rightarrow> list_all host_tree (flat cs)
      | _ \<Rightarrow> False)"
| "host_tree v = False"
  by pat_completeness auto

termination
proof (relation "measure size", goal_cases)
  case 1
  show ?case by simp
next
  case (2 tag ps v cs x)
  from 2(3) obtain c where c: "c \<in> set cs" and x: "x \<in> set (case c of JArr ys \<Rightarrow> ys | _ \<Rightarrow> [c])"
    by (auto simp: flat_def)
  from c have le: "size c \<le> size_list size cs" by (rule size_list_estimation') simp
  have "size x \<le> size c"
  proof (cases c)
    case (JArr ys)
    with x have "x \<in> set ys" by simp
    then have "size x \<le> size_list size ys" by (rule size_list_estimation') simp
    with JArr show ?thesis by simp
  qed (use x in simp_all)
  with le have 1: "size x < size (JArr cs)" by simp
  from 2(1) have "(''children'', v) \<in> set ps" by (rule map_of_SomeD)
  then have "size v \<le> size_list (size_prod (\<lambda>_. 0) size) ps"
    by (rule size_list_estimation') simp
  then have "size v < size (JElem (Host tag) ps)" by simp
  with 1 2(2) show ?case by simp
qed

definition kids :: "jsval \<Rightarrow> jsval list" where
  "kids v =
     (case elem_props v of
        Some ps \<Rightarrow> (case map_of ps ''children'' of Some (JArr cs) \<Rightarrow> flat cs | _ \<Rightarrow> [])
      | None \<Rightarrow> [])"

subsection \<open>Fiber trees that mirror an element tree\<close>

text \<open>
  \<open>rendered re lo s c v\<close>: in the state \<open>s\<close> the fiber \<open>c\<close> and its descendants are the
  finished fibers of the element \<open>v\<close> and its descendants: each has the type and the props
  of its element and a DOM node, the children of a fiber are its \<open>child\<close> and the siblings
  of that one, they have the fiber as \<open>parent\<close>, and they lie at or behind the address \<open>lo\<close>.
  With \<open>re\<close> the fibers are those of a second pass: tagged \<open>UPDATE\<close>, with an alternate that
  has the same props. Without \<open>re\<close> they are tagged \<open>PLACEMENT\<close>.
\<close>

inductive rendered :: "bool \<Rightarrow> nat \<Rightarrow> didact \<Rightarrow> nat \<Rightarrow> jsval \<Rightarrow> bool" for re lo s where
  node: "c < length (fibers s) \<Longrightarrow>
         type (fibers s ! c) = elem_type v \<Longrightarrow>
         props (fibers s ! c) = elem_props v \<Longrightarrow>
         dom' (fibers s ! c) \<noteq> None \<Longrightarrow>
         effectTag (fibers s ! c) = Some (if re then UPDATE else PLACEMENT) \<Longrightarrow>
         re \<longrightarrow> (\<exists>b<length (fibers s). alternate (fibers s ! c) = Some b
                    \<and> props (fibers s ! b) = elem_props v) \<Longrightarrow>
         chain sibling s (child (fibers s ! c)) cs \<Longrightarrow>
         length cs = length (kids v) \<Longrightarrow>
         \<forall>i<length cs. lo \<le> cs ! i \<and> parent (fibers s ! (cs ! i)) = Some c
            \<and> rendered re lo s (cs ! i) (kids v ! i) \<Longrightarrow>
         rendered re lo s c v"

text \<open>
  \<open>old_kids so a es\<close>: in the state \<open>so\<close> the children of the fiber \<open>a\<close> are finished
  fibers of a first pass for the elements \<open>es\<close>, one by one.
\<close>

definition old_kids :: "didact \<Rightarrow> nat \<Rightarrow> jsval list \<Rightarrow> bool" where
  "old_kids so a es =
     (a < length (fibers so)
      \<and> (\<exists>cs. chain sibling so (child (fibers so ! a)) cs \<and> length cs = length es
            \<and> (\<forall>i<length cs. rendered False 0 so (cs ! i) (es ! i))))"

text \<open>
  \<open>pending re so s c v\<close>: the fiber \<open>c\<close> is as \<open>reconcileChildren\<close> has just created it for
  the element \<open>v\<close>, behind the fibers of the state \<open>so\<close> that was committed last: on a first
  pass a \<open>PLACEMENT\<close> without node or alternate, on a second pass an \<open>UPDATE\<close> with the
  node of its alternate, which is a finished fiber for \<open>v\<close> in \<open>so\<close>.
\<close>

definition pending :: "bool \<Rightarrow> didact \<Rightarrow> didact \<Rightarrow> nat \<Rightarrow> jsval \<Rightarrow> bool" where
  "pending re so s c v =
     (length (fibers so) \<le> c \<and> c < length (fibers s)
      \<and> type (fibers s ! c) = elem_type v \<and> props (fibers s ! c) = elem_props v
      \<and> child (fibers s ! c) = None
      \<and> (if re then effectTag (fibers s ! c) = Some UPDATE \<and> dom' (fibers s ! c) \<noteq> None
                   \<and> (\<exists>a. alternate (fibers s ! c) = Some a \<and> rendered False 0 so a v)
          else effectTag (fibers s ! c) = Some PLACEMENT \<and> dom' (fibers s ! c) = None
               \<and> alternate (fibers s ! c) = None))"

text \<open>\<open>extends so s\<close>: the fibers of \<open>so\<close> are the first fibers of \<open>s\<close>, unchanged.\<close>

definition extends :: "didact \<Rightarrow> didact \<Rightarrow> bool" where
  "extends so s =
     (length (fibers so) \<le> length (fibers s)
      \<and> (\<forall>k<length (fibers so). fibers s ! k = fibers so ! k))"

text \<open>
  \<open>frame X s s'\<close>: from \<open>s\<close> to \<open>s'\<close> fibers were added, the fibers of \<open>s\<close> outside \<open>X\<close> are
  unchanged, those in \<open>X\<close> kept parent, sibling, props and effect tag, and the list of
  deletions is the same.
\<close>

definition frame :: "nat set \<Rightarrow> didact \<Rightarrow> didact \<Rightarrow> bool" where
  "frame X s s' =
     (length (fibers s) \<le> length (fibers s') \<and> deletions s' = deletions s
      \<and> (\<forall>k<length (fibers s).
            (k \<notin> X \<longrightarrow> fibers s' ! k = fibers s ! k)
            \<and> parent (fibers s' ! k) = parent (fibers s ! k)
            \<and> sibling (fibers s' ! k) = sibling (fibers s ! k)
            \<and> props (fibers s' ! k) = props (fibers s ! k)
            \<and> effectTag (fibers s' ! k) = effectTag (fibers s ! k)))"

text \<open>
  \<open>worked re X nx s s'\<close>: the units of work from \<open>s\<close> to \<open>s'\<close> worked through the fibers \<open>X\<close>
  and their descendants and left the cursor at \<open>nx\<close>; on a second pass they made no DOM
  call and tagged every fiber they created \<open>UPDATE\<close>.
\<close>

definition worked :: "bool \<Rightarrow> nat set \<Rightarrow> nat option \<Rightarrow> didact \<Rightarrow> didact \<Rightarrow> bool" where
  "worked re X nx s s' =
     (nextUnitOfWork s' = nx \<and> frame X s s'
      \<and> (re \<longrightarrow> domLog s' = domLog s
            \<and> (\<forall>k. length (fibers s) \<le> k \<and> k < length (fibers s')
                  \<longrightarrow> effectTag (fibers s' ! k) = Some UPDATE)))"

text \<open>
  \<open>tree_ok comps re so v\<close>: from every state in which the cursor is at a pending fiber for
  \<open>v\<close>, a number of units of work finishes the fibers of \<open>v\<close> and its descendants and
  leaves the cursor where \<open>performUnitOfWork\<close> looks next.
\<close>

definition tree_ok ::
  "(nat \<Rightarrow> props option \<Rightarrow> comp) \<Rightarrow> bool \<Rightarrow> didact \<Rightarrow> jsval \<Rightarrow> bool" where
  "tree_ok comps re so v =
     (\<forall>s c nx ds.
        extends so s \<longrightarrow> pending re so s c v \<longrightarrow> nextUnitOfWork s = Some c \<longrightarrow>
        nextSibling (Some c) s = Some nx \<longrightarrow> deletions s = Some ds \<longrightarrow>
        (\<exists>k s'. units comps k s = Some s' \<and> worked re {c} nx s s'
                 \<and> rendered re (length (fibers s)) s' c v))"

subsection \<open>Components that only render\<close>

text \<open>
  \<open>trigger_free c\<close>: the body \<open>c\<close> calls neither a setter nor \<open>render\<close> while it runs,
  whatever \<open>useState\<close> hands to it.
\<close>

primrec trigger_free :: "comp \<Rightarrow> bool" where
  "trigger_free (Return v) = True"
| "trigger_free (UseState initial k) = (\<forall>r. trigger_free (k r))"
| "trigger_free (CallSetter h action k) = False"
| "trigger_free (CallRender element container k) = False"

definition trigger_free_comps :: "(nat \<Rightarrow> props option \<Rightarrow> comp) \<Rightarrow> bool" where
  "trigger_free_comps comps = (\<forall>r p. trigger_free (comps r p))"

section \<open>Properties of the element model\<close>

fun is_element :: "jsval \<Rightarrow> bool" where
  "is_element (JElem t p) = True"
| "is_element v = False"

lemma typeof_object:
  "typeof v = ''object'' \<longleftrightarrow>
     (v = JNull \<or> (\<exists>r. v = JObj r) \<or> (\<exists>xs. v = JArr xs) \<or> is_element v)"
  by (cases v) auto

text \<open>
  Claim C9, as the code has it. \<open>createElement type props children\<close> is the element of that
  type whose props are those given, with \<open>children\<close> set to a list as long as the arguments:
  at each position, an argument whose \<open>typeof\<close> is not \<open>"object"\<close> (a string, a number, a
  boolean, \<open>undefined\<close>, a function) is replaced by the text element with that
  \<open>nodeValue\<close> and no children, and an argument whose \<open>typeof\<close> is \<open>"object"\<close> (an element,
  but also an array or \<open>null\<close>, see \<open>typeof_object\<close>) stays as it is.
\<close>

theorem createElement_coerces_non_objects:
  "\<exists>ps kids. createElement t p cs = JElem t ps
     \<and> map_of ps ''children'' = Some (JArr kids)
     \<and> (\<forall>key. key \<noteq> ''children'' \<longrightarrow> map_of ps key = map_of (spread p) key)
     \<and> length kids = length cs
     \<and> (\<forall>i < length cs.
           (typeof (cs ! i) \<noteq> ''object'' \<longrightarrow>
              kids ! i = JElem (Host ''TEXT_ELEMENT'')
                           [(''nodeValue'', cs ! i), (''children'', JArr [])])
         \<and> (typeof (cs ! i) = ''object'' \<longrightarrow> kids ! i = cs ! i))"
  by (simp add: createElement_def createTextElement_def update_conv')

theorem createElement_coerces_non_objects_witness:
  "createElement (Host ''h1'') (Some [(''id'', JStr ''t'')])
       [JStr ''Hello'', JElem (Host ''b'') [], JArr [JNum 1], JNull]
     = JElem (Host ''h1'')
         [(''id'', JStr ''t''),
          (''children'',
             JArr [JElem (Host ''TEXT_ELEMENT'')
                     [(''nodeValue'', JStr ''Hello''), (''children'', JArr [])],
                   JElem (Host ''b'') [], JArr [JNum 1], JNull])]"
  using createElement_coerces_non_objects [of "Host ''h1''" "Some [(''id'', JStr ''t'')]"
      "[JStr ''Hello'', JElem (Host ''b'') [], JArr [JNum 1], JNull]"]
  by (simp add: createElement_def createTextElement_def spread_def)

text \<open>
  Claim C9 as stated fails: an array among the children is not an element, and it is
  passed through as it is instead of being turned into a text element.
\<close>

theorem createElement_array_child_counterexample:
  "\<not> is_element (JArr [JStr ''a''])
   \<and> createElement (Host ''ul'') None [JArr [JStr ''a'']]
       = JElem (Host ''ul'') [(''children'', JArr [JArr [JStr ''a'']])]
   \<and> JArr [JStr ''a''] \<noteq> createTextElement (JArr [JStr ''a''])"
  by (simp add: createElement_def createTextElement_def spread_def)

section \<open>Properties of the DOM adapter\<close>



lemma member_of_own:
  "key \<in> set (object_keys ps) \<Longrightarrow> member_of ps key = Value (get_prop ps key)"
  by (auto simp: member_of_def get_prop_def object_keys_def map_of_eq_None_iff
      split: option.splits)






section \<open>The reconciler changes the fibers only\<close>

lemma heap_only_refl [simp]: "heap_only s s"
  by (simp add: heap_only_def)

lemma heap_only_trans: "heap_only s s' \<Longrightarrow> heap_only s' s'' \<Longrightarrow> heap_only s s''"
  unfolding heap_only_def by (cases s, cases s', cases s'') simp

lemma fibers_kept_refl [simp]: "fibers_kept fs fs"
  by (simp add: fibers_kept_def)

lemma fibers_kept_trans: "fibers_kept fs fs' \<Longrightarrow> fibers_kept fs' fs'' \<Longrightarrow> fibers_kept fs fs''"
  unfolding fibers_kept_def by auto

lemma fibers_kept_append: "fibers_kept fs (fs @ xs)"
  by (simp add: fibers_kept_def nth_append)

lemma fibers_kept_update:
  assumes "erase_links (g (fs ! a)) = erase_links (fs ! a)"
  shows "fibers_kept fs (fs[a := g (fs ! a)])"
  unfolding fibers_kept_def
proof (intro conjI allI impI)
  show "length fs \<le> length (fs[a := g (fs ! a)])" by simp
next
  fix b assume "b < length fs"
  then show "erase_links (fs[a := g (fs ! a)] ! b) = erase_links (fs ! b)"
    using assms by (cases "b = a") simp_all
qed

lemma modify_links:
  assumes "modify a g s = Some s'" and "\<And>f. erase_links (g f) = erase_links f"
  shows "heap_only s s' \<and> fibers_kept (fibers s) (fibers s') \<and> deletions s' = deletions s"
  using assms by (auto simp: modify_def heap_only_def fibers_kept_update split: if_splits)

lemma markDeletion_frame:
  assumes "markDeletion oldFiber same s = Some s'"
  shows "heap_only s s' \<and> fibers_kept (fibers s) (fibers s')"
proof (cases "oldFiber = None \<or> same")
  case True
  with assms show ?thesis by (auto simp: markDeletion_def split: option.splits)
next
  case False
  then obtain a where a: "oldFiber = Some a" and ns: "\<not> same" by auto
  from assms a ns obtain s1 ds where m: "modify a (\<lambda>f. f\<lparr>effectTag := Some DELETION\<rparr>) s = Some s1"
    and ds: "deletions s1 = Some ds" and s': "s' = s1\<lparr>deletions := Some (ds @ [a])\<rparr>"
    by (auto simp: markDeletion_def split: Option.bind_splits)
  from modify_links [OF m] have "heap_only s s1 \<and> fibers_kept (fibers s) (fibers s1)"
    by (simp add: erase_links_def)
  with s' show ?thesis
    unfolding heap_only_def by (cases s, cases s1) auto
qed

lemma linkFiber_frame:
  assumes "linkFiber wip index element prevSibling newFiber s = Some s'"
  shows "heap_only s s' \<and> fibers_kept (fibers s) (fibers s') \<and> deletions s' = deletions s"
proof -
  consider "index = 0" | "index \<noteq> 0" "truthy element" | "index \<noteq> 0" "\<not> truthy element" by blast
  then show ?thesis
  proof cases
    case 1
    with assms have "modify wip (\<lambda>f. f\<lparr>child := newFiber\<rparr>) s = Some s'"
      by (simp add: linkFiber_def)
    from modify_links [OF this] show ?thesis by (simp add: erase_links_def)
  next
    case 2
    with assms obtain p where "modify p (\<lambda>f. f\<lparr>sibling := newFiber\<rparr>) s = Some s'"
      by (auto simp: linkFiber_def split: Option.bind_splits)
    from modify_links [OF this] show ?thesis by (simp add: erase_links_def)
  next
    case 3
    with assms show ?thesis by (simp add: linkFiber_def)
  qed
qed

lemma reconcile_step_frame:
  assumes "reconcile_step wip element index oldFiber prevSibling s = Some (newFiber, oldFiber', s')"
  shows "heap_only s s' \<and> fibers_kept (fibers s) (fibers s')"
proof -
  from assms obtain old where old: "(case oldFiber of None \<Rightarrow> Some None
               | Some a \<Rightarrow> map_option Some (fiber_at s a)) = Some old"
    unfolding reconcile_step_def by (auto split: Option.bind_splits)
  define s1 where "s1 = (case newFiberOf wip oldFiber old element of
            None \<Rightarrow> s | Some f \<Rightarrow> snd (alloc f s))"
  have s1: "heap_only s s1 \<and> fibers_kept (fibers s) (fibers s1)"
    by (simp add: s1_def alloc_def heap_only_def fibers_kept_append split: option.splits)
  from assms old obtain s2 where
    s2: "markDeletion oldFiber (sameType old element) s1 = Some s2"
    and s3: "linkFiber wip index element prevSibling newFiber s2 = Some s'"
    unfolding reconcile_step_def s1_def
    by (auto simp: Let_def split: Option.bind_splits option.splits prod.splits)
  from markDeletion_frame [OF s2] linkFiber_frame [OF s3] s1 show ?thesis
    by (blast intro: heap_only_trans fibers_kept_trans)
qed

lemma reconcile_loop_frame:
  assumes a: "reconcile_loop wip elements index oldFiber prevSibling s = Some s'"
  shows "heap_only s s' \<and> fibers_kept (fibers s) (fibers s')"
proof (rule reconcile_loop.raw_induct [OF _ a], goal_cases)
  case (1 loop wip elements index oldFiber prevSibling s s')
  show ?case
  proof (cases "index < length elements \<or> oldFiber \<noteq> None")
    case True
    with 1(2) obtain newFiber oldFiber' s1 where
      st: "reconcile_step wip (if index < length elements then elements ! index else JUndefined)
             index oldFiber prevSibling s = Some (newFiber, oldFiber', s1)"
      and l: "loop wip elements (index + 1) oldFiber' newFiber s1 = Some s'"
      by (auto split: Option.bind_splits)
    from l have "heap_only s1 s' \<and> fibers_kept (fibers s1) (fibers s')"
      by (rule 1(1))
    with reconcile_step_frame [OF st] show ?thesis
      by (blast intro: heap_only_trans fibers_kept_trans)
  next
    case False
    with 1(2) show ?thesis by simp
  qed
qed

lemma reconcileChildren_frame:
  "reconcileChildren wip elements s = Some s'
   \<Longrightarrow> heap_only s s' \<and> fibers_kept (fibers s) (fibers s')"
  unfolding reconcileChildren_def
  by (auto split: Option.bind_splits dest: reconcile_loop_frame)

section \<open>The work phase only builds detached nodes\<close>

lemma detached_mono: "b \<le> b' \<Longrightarrow> detached b' x \<Longrightarrow> detached b x"
  by (cases x) simp_all

lemma builds_only_refl [simp]: "builds_only s s"
  by (simp add: builds_only_def)

lemma builds_only_trans:
  assumes "builds_only s s'" and "builds_only s' s''"
  shows "builds_only s s''"
proof -
  from assms obtain ops ops' where 1: "domLog s' = domLog s @ ops" "list_all (detached (domNext s)) ops"
    and 2: "domLog s'' = domLog s' @ ops'" "list_all (detached (domNext s')) ops'"
    and le: "domNext s \<le> domNext s'" "domNext s' \<le> domNext s''"
    and r: "currentRoot s'' = currentRoot s" "wipRoot s'' = wipRoot s"
    by (auto simp: builds_only_def)
  from 2(2) le(1) have "list_all (detached (domNext s)) ops'"
    by (auto simp: list_all_iff intro: detached_mono)
  with 1 2(1) have "domLog s'' = domLog s @ (ops @ ops') \<and> list_all (detached (domNext s)) (ops @ ops')"
    by simp
  with le r show ?thesis unfolding builds_only_def by (intro conjI exI[of _ "ops @ ops'"]) auto
qed

lemma heap_only_builds: "heap_only s s' \<Longrightarrow> builds_only s s'"
  unfolding heap_only_def builds_only_def by (cases s) (auto elim!: ssubst)

lemma modify_builds: "modify a g s = Some s' \<Longrightarrow> builds_only s s'"
  by (auto simp: modify_def builds_only_def split: if_splits)

lemma updateDom_new_detached: "list_all (detached node) (updateDom node [] p)"
  by (auto simp: updateDom_def object_keys_def list_all_iff)

lemma createDom_builds:
  assumes "createDom f s = Some (node, s')"
  shows "builds_only s s'" and "node = domNext s" and "domNext s' = domNext s + 1"
    and "fibers s' = fibers s"
proof -
  from assms obtain create p where c: "(case type f of
            None \<Rightarrow> Some (CreateElement (domNext s) ''undefined'')
          | Some (Host tag) \<Rightarrow>
              Some (if tag = ''TEXT_ELEMENT'' then CreateTextNode (domNext s) ''''
                    else CreateElement (domNext s) tag)
          | Some (Fn r) \<Rightarrow> None) = Some create"
    and s': "s' = emit (create # updateDom (domNext s) [] p) (s\<lparr>domNext := domNext s + 1\<rparr>)"
    and n: "node = domNext s"
    unfolding createDom_def by (auto simp: bind_eq_Some_conv)
  from c have d: "detached (domNext s) create"
    by (cases "type f"; cases "the (type f)") (auto split: if_splits)
  show "builds_only s s'"
    unfolding builds_only_def s' emit_def using d updateDom_new_detached [of "domNext s" p]
    by simp
  show "node = domNext s" by (rule n)
  show "domNext s' = domNext s + 1" "fibers s' = fibers s" by (simp_all add: s' emit_def)
qed

lemma useState_builds:
  assumes "useState initial s = Some (r, s')"
  shows "builds_only s s'"
proof -
  from assms obtain w where w: "wipFiber s = Some w"
    by (auto simp: useState_def split: Option.bind_splits)
  from assms w obtain wf where wf: "fiber_at s w = Some wf"
    by (auto simp: useState_def split: Option.bind_splits)
  from assms w wf obtain oh where oh: "(case alternate wf of None \<Rightarrow> Some None
          | Some alt \<Rightarrow>
              do {
                af \<leftarrow> fiber_at s alt;
                (case hooks af of None \<Rightarrow> Some None
                 | Some hs \<Rightarrow>
                     if hookIndex s < length hs
                     then map_option Some (hook_at s (hs ! hookIndex s))
                     else Some None)
              }) = Some oh"
    unfolding useState_def by (auto split: Option.bind_splits)
  from assms w wf oh obtain hs where hs: "hooks wf = Some hs"
    unfolding useState_def by (auto simp: Let_def split: Option.bind_splits)
  from assms w wf hs show ?thesis
    unfolding useState_def
    by (auto simp: oh Let_def modify_def builds_only_def split: if_splits)
qed

lemma run_comp_builds:
  "run_comp c s = Some (v, s') \<Longrightarrow> trigger_free c \<Longrightarrow> builds_only s s'"
proof (induction c arbitrary: s)
  case (Return x)
  then show ?case by simp
next
  case (UseState initial k)
  from UseState.prems obtain r s1 where u: "useState initial s = Some (r, s1)"
    and r: "run_comp (k r) s1 = Some (v, s')"
    by (auto split: option.splits)
  from UseState.prems(2) have "trigger_free (k r)" by (cases r) auto
  from UseState.IH [OF _ r this] useState_builds [OF u] show ?case
    by (blast intro: builds_only_trans)
qed simp_all

lemma reconcileChildren_builds: "reconcileChildren a es s = Some s' \<Longrightarrow> builds_only s s'"
  by (blast dest: reconcileChildren_frame intro: heap_only_builds)

lemma updateHostComponent_builds:
  assumes "updateHostComponent a s = Some s'"
  shows "builds_only s s'"
proof -
  from assms obtain f s1 es where f: "fiber_at s a = Some f"
    and s1: "(if dom' f = None then
                do {
                  (node, s') \<leftarrow> createDom f s;
                  modify a (\<lambda>f. f\<lparr>dom' := Some node\<rparr>) s'
                }
              else Some s) = Some s1"
    and r: "reconcileChildren a es s1 = Some s'"
    unfolding updateHostComponent_def by (auto simp: bind_eq_Some_conv)
  have "builds_only s s1"
  proof (cases "dom' f = None")
    case True
    with s1 obtain node s0 where c: "createDom f s = Some (node, s0)"
      and m: "modify a (\<lambda>f. f\<lparr>dom' := Some node\<rparr>) s0 = Some s1"
      by (auto simp: bind_eq_Some_conv)
    from createDom_builds(1) [OF c] modify_builds [OF m] show ?thesis
      by (rule builds_only_trans)
  next
    case False
    with s1 show ?thesis by simp
  qed
  with reconcileChildren_builds [OF r] show ?thesis by (blast intro: builds_only_trans)
qed

lemma updateFunctionComponent_builds:
  assumes "updateFunctionComponent comps a s = Some s'" and "trigger_free_comps comps"
  shows "builds_only s s'"
proof -
  from assms(1) obtain s1 r p v s2 where
    s1: "modify a (\<lambda>f. f\<lparr>hooks := Some []\<rparr>) (s\<lparr>wipFiber := Some a, hookIndex := 0\<rparr>) = Some s1"
    and c: "run_comp (comps r p) s1 = Some (v, s2)"
    and r: "reconcileChildren a [v] s2 = Some s'"
    unfolding updateFunctionComponent_def by (auto simp: bind_eq_Some_conv)
  from assms(2) have tf: "trigger_free (comps r p)" by (simp add: trigger_free_comps_def)
  from modify_builds [OF s1] have "builds_only s s1" by (simp add: builds_only_def)
  with run_comp_builds [OF c tf] reconcileChildren_builds [OF r] show ?thesis
    by (blast intro: builds_only_trans)
qed

lemma performUnitOfWork_builds:
  assumes "performUnitOfWork comps a s = Some (n, s')" and tf: "trigger_free_comps comps"
  shows "builds_only s s'"
proof -
  from assms(1) obtain f where
    "(if isFunctionComponent f then updateFunctionComponent comps a s
      else updateHostComponent a s) = Some s'"
    unfolding performUnitOfWork_def
    by (auto simp: bind_eq_Some_conv split: option.splits)
  then show ?thesis
    by (cases "isFunctionComponent f")
       (auto dest: updateHostComponent_builds updateFunctionComponent_builds [OF _ tf])
qed

lemma work_builds:
  assumes "work comps deadline s = Some s'" and tf: "trigger_free_comps comps"
  shows "builds_only s s'"
  using assms(1)
proof (induction deadline arbitrary: s)
  case 0
  show ?case
  proof (cases "nextUnitOfWork s")
    case None
    with 0 show ?thesis by simp
  next
    case (Some a)
    with 0 obtain n s1 where p: "performUnitOfWork comps a s = Some (n, s1)"
      and s': "s' = s1\<lparr>nextUnitOfWork := n\<rparr>"
      by (auto simp: bind_eq_Some_conv)
    from performUnitOfWork_builds [OF p tf] s' show ?thesis by (simp add: builds_only_def)
  qed
next
  case (Suc deadline)
  show ?case
  proof (cases "nextUnitOfWork s")
    case None
    with Suc.prems show ?thesis by simp
  next
    case (Some a)
    with Suc.prems obtain n s1 where p: "performUnitOfWork comps a s = Some (n, s1)"
      and w: "work comps deadline (s1\<lparr>nextUnitOfWork := n\<rparr>) = Some s'"
      by (auto simp: bind_eq_Some_conv)
    from performUnitOfWork_builds [OF p tf] have "builds_only s (s1\<lparr>nextUnitOfWork := n\<rparr>)"
      by (simp add: builds_only_def)
    with Suc.IH [OF w] show ?thesis by (blast intro: builds_only_trans)
  qed
qed

section \<open>Properties of the render triggers\<close>

text \<open>
  Claim C8. \<open>render\<close> allocates the new wip root, makes it the cursor and leaves the list
  of deletions empty; when a setter returns, it has done the same with a copy of the
  current root. In both cases the fibers that existed before are untouched and the new
  root has no child yet: no reconciliation has taken place when the list is reset, and
  nothing is written to the DOM. (A setter called while there is no current root fails
  with a \<open>TypeError\<close> on \<open>currentRoot.dom\<close>.)
\<close>

theorem render_resets_deletions:
  "deletions (render element container s) = Some []
   \<and> wipRoot (render element container s) = Some (length (fibers s))
   \<and> nextUnitOfWork (render element container s) = Some (length (fibers s))
   \<and> fibers (render element container s) =
       fibers s @ [empty_fiber\<lparr>dom' := Some container,
                     props := Some [(''children'', JArr [element])],
                     alternate := currentRoot s\<rparr>]
   \<and> domLog (render element container s) = domLog s
   \<and> (setState h action s = Some s' \<longrightarrow>
        deletions s' = Some []
        \<and> wipRoot s' = Some (length (fibers s))
        \<and> nextUnitOfWork s' = Some (length (fibers s))
        \<and> (\<exists>c cf. currentRoot s = Some c \<and> fiber_at s c = Some cf
              \<and> fibers s' = fibers s @ [empty_fiber\<lparr>dom' := dom' cf, props := props cf,
                                           alternate := Some c\<rparr>])
        \<and> domLog s' = domLog s)"
proof -
  have r: "render element container s =
      s\<lparr>fibers := fibers s @ [empty_fiber\<lparr>dom' := Some container,
                     props := Some [(''children'', JArr [element])],
                     alternate := currentRoot s\<rparr>],
        wipRoot := Some (length (fibers s)), deletions := Some [],
        nextUnitOfWork := Some (length (fibers s))\<rparr>"
    by (simp add: render_def alloc_def)
  have st: "deletions s' = Some []
        \<and> wipRoot s' = Some (length (fibers s))
        \<and> nextUnitOfWork s' = Some (length (fibers s))
        \<and> (\<exists>c cf. currentRoot s = Some c \<and> fiber_at s c = Some cf
              \<and> fibers s' = fibers s @ [empty_fiber\<lparr>dom' := dom' cf, props := props cf,
                                           alternate := Some c\<rparr>])
        \<and> domLog s' = domLog s" if a: "setState h action s = Some s'"
  proof -
    from a obtain hk where hk: "hook_at s h = Some hk"
      by (auto simp: setState_def split: Option.bind_splits)
    from a hk obtain c where c: "currentRoot s = Some c"
      by (auto simp: setState_def Let_def split: Option.bind_splits)
    from a hk c obtain cf where cf: "fiber_at s c = Some cf"
      by (auto simp: setState_def Let_def fiber_at_def split: Option.bind_splits if_splits)
    from a hk c cf show ?thesis
      by (auto simp: setState_def Let_def fiber_at_def alloc_def split: if_splits)
  qed
  show ?thesis using st by (simp add: r)
qed

theorem render_resets_deletions_witness:
  "map_option deletions
     (do { s \<leftarrow> idle counter_comps [10] (render counter_page 0 initial_state);
           setState 0 increment s }) = Some (Some [])
   \<and> map_option (\<lambda>s. deletions (render two_items 0 s))
       (idle counter_comps [10] (render counter_page 0 initial_state)) = Some (Some [])"
proof -
  have "\<not> Option.is_none
     (do { s \<leftarrow> idle counter_comps [10] (render counter_page 0 initial_state);
           setState 0 increment s })"
    by code_simp
  then obtain s s' where 1: "idle counter_comps [10] (render counter_page 0 initial_state) = Some s"
    and 2: "setState 0 increment s = Some s'"
    by (auto simp: Option.is_none_def split: Option.bind_splits)
  from render_resets_deletions [of two_items 0 s 0 increment s'] 2
  have "deletions s' = Some []" and "deletions (render two_items 0 s) = Some []"
    by blast+
  with 1 2 show ?thesis by simp
qed

section \<open>Deletions and the commit\<close>

text \<open>
  Claim C1 does not hold of the code. The page \<open>two_items\<close> (a \<open>div\<close> with an \<open>h1\<close> and an
  \<open>h2\<close>) is rendered and committed, then \<open>one_item\<close> (the same without the \<open>h2\<close>). The
  reconciler tags the old fiber of the \<open>h2\<close> (fiber 3, DOM node 3) with \<open>DELETION\<close> and puts
  it on the list of deletions, but \<open>commitRoot\<close> walks the new tree only, which does not
  hold that fiber: the trace of the second commit is empty, and no \<open>removeChild\<close> is ever
  issued.
\<close>

theorem deleted_fiber_is_not_removed:
  "map_option (\<lambda>s. (map type (fibers s), map effectTag (fibers s), map dom' (fibers s),
                     deletions s, domLog s))
     (do { s \<leftarrow> idle no_comps [10] (render two_items 0 initial_state);
           idle no_comps [10] (render one_item 0 s) })
   = Some ([None, Some (Host ''div''), Some (Host ''h1''), Some (Host ''h2''),
            None, Some (Host ''div''), Some (Host ''h1'')],
           [None, Some PLACEMENT, Some PLACEMENT, Some DELETION, None, Some UPDATE, Some UPDATE],
           [Some 0, Some 1, Some 2, Some 3, Some 0, Some 1, Some 2],
           Some [3],
           [CreateElement 1 ''div'', CreateElement 2 ''h1'', CreateElement 3 ''h2'',
            AppendChild 0 1, AppendChild 1 2, AppendChild 1 3])"
  by code_simp

section \<open>Properties of the state hook\<close>

lemma foldl_replay: "foldl (\<lambda>st action. action st) b as = replay b as"
  by (induction as arbitrary: b) simp_all

lemma useState_result:
  assumes "useState initial s = Some ((v, setter), s')"
  shows "v = replay (case alternate_hook s of None \<Rightarrow> initial | Some oh \<Rightarrow> state oh)
                    (case alternate_hook s of None \<Rightarrow> [] | Some oh \<Rightarrow> queue oh)"
    and "setter = length (hookObjs s)"
    and "hookObjs s' = hookObjs s @ [\<lparr>state = v, queue = []\<rparr>]"
    and "hookIndex s' = hookIndex s + 1"
proof -
  from assms obtain w where w: "wipFiber s = Some w"
    by (auto simp: useState_def split: Option.bind_splits)
  from assms w obtain wf where wf: "fiber_at s w = Some wf"
    by (auto simp: useState_def split: Option.bind_splits)
  define oldHook where "oldHook =
         (case alternate wf of None \<Rightarrow> Some None
          | Some alt \<Rightarrow>
              do {
                af \<leftarrow> fiber_at s alt;
                (case hooks af of None \<Rightarrow> Some None
                 | Some hs \<Rightarrow>
                     if hookIndex s < length hs
                     then map_option Some (hook_at s (hs ! hookIndex s))
                     else Some None)
              })"
  from assms w wf obtain oh where oh: "oldHook = Some oh"
    unfolding useState_def oldHook_def by (auto split: Option.bind_splits)
  have alt: "alternate_hook s = oh"
    using oh w wf unfolding oldHook_def alternate_hook_def
    by (auto split: option.splits Option.bind_splits if_splits)
  note oh' = oh [unfolded oldHook_def]
  from assms w wf oh' obtain hs where hs: "hooks wf = Some hs"
    unfolding useState_def by (auto simp: Let_def split: Option.bind_splits)
  from assms w wf hs alt
  show "v = replay (case alternate_hook s of None \<Rightarrow> initial | Some oh \<Rightarrow> state oh)
                    (case alternate_hook s of None \<Rightarrow> [] | Some oh \<Rightarrow> queue oh)"
    and "setter = length (hookObjs s)"
    and "hookObjs s' = hookObjs s @ [\<lparr>state = v, queue = []\<rparr>]"
    and "hookIndex s' = hookIndex s + 1"
    unfolding useState_def
    by (auto simp: oh' Let_def modify_def foldl_replay split: if_splits)
qed

text \<open>
  Claim C2. Whenever \<open>useState initial\<close> returns, the state it returns is the result of
  replaying the queue of the hook of the alternate fiber at the position of the call, in
  the order of the queue, from the state of that hook, or \<open>initial\<close> when the alternate has
  no hook there (then there is nothing to replay); the new hook holds that state and an
  empty queue. And the counter that starts at 0, whose setter (the one returned by the
  latest render, which the click listener then in place would call) is invoked with
  \<open>increment\<close> once before each of three re-renders, resolves the states 1, 2 and 3 in
  that order, whatever the idle slices: the hooks of the four renders hold 0, 1, 2, 3 and
  the three commits write 1, 2, 3 into the text node.
\<close>

theorem useState_replays_pending_actions:
  "(useState initial s = Some ((v, setter), s') \<longrightarrow>
      v = replay (case alternate_hook s of None \<Rightarrow> initial | Some oh \<Rightarrow> state oh)
                 (case alternate_hook s of None \<Rightarrow> [] | Some oh \<Rightarrow> queue oh)
      \<and> hook_at s' setter = Some \<lparr>state = v, queue = []\<rparr>)
   \<and> map_option (\<lambda>s. (map state (hookObjs s), domLog s))
       (do { s0 \<leftarrow> idle counter_comps [10] (render counter_page 0 initial_state);
             s1 \<leftarrow> setState 0 increment s0;
             s1 \<leftarrow> idle counter_comps [2, 2] s1;
             s2 \<leftarrow> setState 1 increment s1;
             s2 \<leftarrow> idle counter_comps [10] s2;
             s3 \<leftarrow> setState 2 increment s2;
             idle counter_comps [0, 0, 0, 0, 0, 0] s3 })
     = Some ([JNum 0, JNum 1, JNum 2, JNum 3],
         [CreateElement 1 ''div'', CreateElement 2 ''h1'',
          AddEventListener 2 ''click'' (JFun 0), CreateTextNode 3 [],
          SetProperty 3 ''nodeValue'' (JStr ''Count: ''), CreateTextNode 4 [],
          SetProperty 4 ''nodeValue'' (JNum 0), AppendChild 0 1, AppendChild 1 2,
          AppendChild 2 3, AppendChild 2 4,
          RemoveEventListener 2 ''click'' (JFun 0), AddEventListener 2 ''click'' (JFun 1),
          SetProperty 4 ''nodeValue'' (JNum 1),
          RemoveEventListener 2 ''click'' (JFun 1), AddEventListener 2 ''click'' (JFun 2),
          SetProperty 4 ''nodeValue'' (JNum 2),
          RemoveEventListener 2 ''click'' (JFun 2), AddEventListener 2 ''click'' (JFun 3),
          SetProperty 4 ''nodeValue'' (JNum 3)])"
proof (intro conjI impI)
  assume a: "useState initial s = Some ((v, setter), s')"
  show "v = replay (case alternate_hook s of None \<Rightarrow> initial | Some oh \<Rightarrow> state oh)
                 (case alternate_hook s of None \<Rightarrow> [] | Some oh \<Rightarrow> queue oh)"
    by (rule useState_result(1) [OF a])
  show "hook_at s' setter = Some \<lparr>state = v, queue = []\<rparr>"
    using useState_result(2,3) [OF a] by (simp add: hook_at_def)
next
  show "map_option (\<lambda>s. (map state (hookObjs s), domLog s))
       (do { s0 \<leftarrow> idle counter_comps [10] (render counter_page 0 initial_state);
             s1 \<leftarrow> setState 0 increment s0;
             s1 \<leftarrow> idle counter_comps [2, 2] s1;
             s2 \<leftarrow> setState 1 increment s1;
             s2 \<leftarrow> idle counter_comps [10] s2;
             s3 \<leftarrow> setState 2 increment s2;
             idle counter_comps [0, 0, 0, 0, 0, 0] s3 })
     = Some ([JNum 0, JNum 1, JNum 2, JNum 3],
         [CreateElement 1 ''div'', CreateElement 2 ''h1'',
          AddEventListener 2 ''click'' (JFun 0), CreateTextNode 3 [],
          SetProperty 3 ''nodeValue'' (JStr ''Count: ''), CreateTextNode 4 [],
          SetProperty 4 ''nodeValue'' (JNum 0), AppendChild 0 1, AppendChild 1 2,
          AppendChild 2 3, AppendChild 2 4,
          RemoveEventListener 2 ''click'' (JFun 0), AddEventListener 2 ''click'' (JFun 1),
          SetProperty 4 ''nodeValue'' (JNum 1),
          RemoveEventListener 2 ''click'' (JFun 1), AddEventListener 2 ''click'' (JFun 2),
          SetProperty 4 ''nodeValue'' (JNum 2),
          RemoveEventListener 2 ''click'' (JFun 2), AddEventListener 2 ''click'' (JFun 3),
          SetProperty 4 ''nodeValue'' (JNum 3)])"
    by code_simp
qed

theorem useState_replays_pending_actions_witness:
  "map_option (\<lambda>((v, setter), s'). (v, setter)) (counter_in_render \<bind> useState (JNum 7))
     = Some (JNum 2, 1)
   \<and> map_option (\<lambda>s. map_option (\<lambda>oh. (state oh, map (\<lambda>action. action (JNum 5)) (queue oh)))
                        (alternate_hook s)) counter_in_render
       = Some (Some (JNum 0, [JNum 6, JNum 10]))"
proof -
  have e: "map_option (\<lambda>((v, setter), s'). setter) (counter_in_render \<bind> useState (JNum 7))
      = Some 1"
    by code_simp
  have q: "map_option (\<lambda>s. map_option (\<lambda>oh. replay (state oh) (queue oh)) (alternate_hook s))
             counter_in_render = Some (Some (JNum 2))"
    by code_simp
  have q': "map_option (\<lambda>s. map_option (\<lambda>oh. (state oh, map (\<lambda>action. action (JNum 5)) (queue oh)))
                        (alternate_hook s)) counter_in_render
       = Some (Some (JNum 0, [JNum 6, JNum 10]))"
    by code_simp
  from e obtain s v setter s' where s: "counter_in_render = Some s"
    and u: "useState (JNum 7) s = Some ((v, setter), s')"
    by (auto split: Option.bind_splits)
  from q have "map_option (\<lambda>oh. replay (state oh) (queue oh)) (alternate_hook s) = Some (JNum 2)"
    unfolding s by simp
  then obtain oh where oh: "alternate_hook s = Some oh" and r: "replay (state oh) (queue oh) = JNum 2"
    by auto
  from useState_replays_pending_actions [of "JNum 7" s v setter s'] u oh r
  have "v = JNum 2"
    by simp
  moreover from e have "setter = 1"
    unfolding s by (simp add: u)
  ultimately show ?thesis using q' unfolding s by (simp add: u)
qed

section \<open>The commit and the work loop\<close>

lemma emit_emit: "emit ops (emit ops' s) = emit (ops' @ ops) s"
  by (simp add: emit_def)

lemma emit_Nil: "emit [] s = s"
  by (simp add: emit_def)

lemma commitFiber_emits: "commitFiber f domParent s = Some s' \<Longrightarrow> \<exists>ops. s' = emit ops s"
  unfolding commitFiber_def
  by (auto simp: bind_eq_Some_conv split: if_splits intro: emit_Nil [symmetric])

lemma commitWork_emits:
  assumes a: "commitWork fiber s = Some s'"
  shows "\<exists>ops. s' = emit ops s"
proof (rule commitWork.raw_induct [OF _ a], goal_cases)
  case (1 commit fiber s s')
  show ?case
  proof (cases fiber)
    case None
    with 1(2) show ?thesis by (auto intro: emit_Nil [symmetric])
  next
    case (Some a)
    with 1(2) obtain f domParent s1 s2 where c: "commitFiber f domParent s = Some s1"
      and c1: "commit (child f) s1 = Some s2" and c2: "commit (sibling f) s2 = Some s'"
      by (auto simp: bind_eq_Some_conv)
    from commitFiber_emits [OF c] 1(1) [OF c1] 1(1) [OF c2] show ?thesis
      by (auto simp: emit_emit)
  qed
qed

lemma commitRoot_result:
  assumes "commitRoot s = Some s'"
  shows "\<exists>r ops. wipRoot s = Some r \<and> s' = (emit ops s)\<lparr>currentRoot := Some r, wipRoot := None\<rparr>"
proof -
  from assms [unfolded commitRoot_def bind_eq_Some_conv]
  obtain r rf s1 where r: "wipRoot s = Some r" and rf: "fiber_at s r = Some rf"
    and c: "commitWork (child rf) s = Some s1"
    and s': "Some (s1\<lparr>currentRoot := wipRoot s1, wipRoot := None\<rparr>) = Some s'"
    by blast
  from commitWork_emits [OF c] obtain ops where "s1 = emit ops s" by blast
  with r s' show ?thesis by (auto simp: emit_def)
qed

section \<open>Units of work\<close>

lemma dom_kept_refl [simp]: "dom_kept s s"
  by (simp add: dom_kept_def)

lemma dom_kept_trans: "dom_kept s s' \<Longrightarrow> dom_kept s' s'' \<Longrightarrow> dom_kept s s''"
  unfolding dom_kept_def by auto

lemma erase_links_dom: "erase_links f' = erase_links f \<Longrightarrow> dom' f' = dom' f"
  unfolding erase_links_def by (cases f, cases f') simp

lemma heap_only_dom_kept:
  assumes "heap_only s s'" and "fibers_kept (fibers s) (fibers s')"
  shows "dom_kept s s'"
proof -
  from assms(1) have "domLog s' = domLog s \<and> domNext s' = domNext s"
    unfolding heap_only_def by (cases s) (auto elim!: ssubst)
  with assms(2) show ?thesis
    unfolding dom_kept_def fibers_kept_def by (auto intro: erase_links_dom)
qed

lemma modify_dom_kept:
  assumes "modify a g s = Some s'" and "\<And>f. dom' (g f) = dom' f"
  shows "dom_kept s s'"
  using assms by (auto simp: modify_def dom_kept_def nth_list_update split: if_splits)

lemma useState_dom_kept:
  assumes "useState initial s = Some (r, s')"
  shows "dom_kept s s'"
proof -
  from assms obtain w where w: "wipFiber s = Some w"
    by (auto simp: useState_def split: Option.bind_splits)
  from assms w obtain wf where wf: "fiber_at s w = Some wf"
    by (auto simp: useState_def split: Option.bind_splits)
  from assms w wf obtain oh where oh: "(case alternate wf of None \<Rightarrow> Some None
          | Some alt \<Rightarrow>
              do {
                af \<leftarrow> fiber_at s alt;
                (case hooks af of None \<Rightarrow> Some None
                 | Some hs \<Rightarrow>
                     if hookIndex s < length hs
                     then map_option Some (hook_at s (hs ! hookIndex s))
                     else Some None)
              }) = Some oh"
    unfolding useState_def by (auto split: Option.bind_splits)
  from assms w wf oh obtain hs where hs: "hooks wf = Some hs"
    unfolding useState_def by (auto simp: Let_def split: Option.bind_splits)
  from assms w wf hs show ?thesis
    unfolding useState_def
    by (auto simp: oh Let_def modify_def dom_kept_def nth_list_update split: if_splits)
qed

lemma run_comp_dom_kept: "run_comp c s = Some (v, s') \<Longrightarrow> dom_kept s s'"
proof (induction c arbitrary: s)
  case (Return x)
  then show ?case by simp
next
  case (UseState initial k)
  from UseState.prems obtain r s1 where u: "useState initial s = Some (r, s1)"
    and r: "run_comp (k r) s1 = Some (v, s')"
    by (auto split: option.splits)
  from UseState.IH [OF _ r] useState_dom_kept [OF u] show ?case
    by (blast intro: dom_kept_trans)
next
  case (CallSetter h action k)
  from CallSetter.prems obtain s1 where u: "setState h action s = Some s1"
    and r: "run_comp k s1 = Some (v, s')"
    by (auto split: option.splits)
  from u have "dom_kept s s1"
    by (auto simp: setState_def Let_def alloc_def dom_kept_def bind_eq_Some_conv nth_append)
  with CallSetter.IH [OF r] show ?case by (blast intro: dom_kept_trans)
next
  case (CallRender element container k)
  then have r: "run_comp k (render element container s) = Some (v, s')" by simp
  have "dom_kept s (render element container s)"
    by (simp add: render_def alloc_def dom_kept_def nth_append)
  with CallRender.IH [OF r] show ?case by (blast intro: dom_kept_trans)
qed

lemma reconcileChildren_dom_kept: "reconcileChildren a es s = Some s' \<Longrightarrow> dom_kept s s'"
  by (blast dest: reconcileChildren_frame intro: heap_only_dom_kept)

lemma updateFunctionComponent_reconciles:
  assumes "updateFunctionComponent comps a s = Some s'"
  shows "\<exists>f r v s1 s2. modify a (\<lambda>f. f\<lparr>hooks := Some []\<rparr>) (s\<lparr>wipFiber := Some a, hookIndex := 0\<rparr>) = Some s1
     \<and> fiber_at s1 a = Some f \<and> type f = Some (Fn r)
     \<and> run_comp (comps r (props f)) s1 = Some (v, s2) \<and> reconcileChildren a [v] s2 = Some s'"
proof -
  from assms [unfolded updateFunctionComponent_def bind_eq_Some_conv]
  obtain s1 f r vs where
    s1: "modify a (\<lambda>f. f\<lparr>hooks := Some []\<rparr>) (s\<lparr>wipFiber := Some a, hookIndex := 0\<rparr>) = Some s1"
    and f: "fiber_at s1 a = Some f"
    and r: "(case type f of Some (Fn r) \<Rightarrow> Some r | _ \<Rightarrow> None) = Some r"
    and c: "run_comp (comps r (props f)) s1 = Some vs"
    and rc: "(case vs of (v, s2) \<Rightarrow> reconcileChildren a [v] s2) = Some s'"
    by blast
  from r have "type f = Some (Fn r)"
    by (auto split: option.splits etype.splits)
  with s1 f c rc show ?thesis
    by (cases vs) auto
qed

lemma updateFunctionComponent_dom_kept:
  assumes "updateFunctionComponent comps a s = Some s'"
  shows "dom_kept s s'"
proof -
  from updateFunctionComponent_reconciles [OF assms] obtain f r v s1 s2 where
    s1: "modify a (\<lambda>f. f\<lparr>hooks := Some []\<rparr>) (s\<lparr>wipFiber := Some a, hookIndex := 0\<rparr>) = Some s1"
    and f: "fiber_at s1 a = Some f" "type f = Some (Fn r)"
    and c: "run_comp (comps r (props f)) s1 = Some (v, s2)"
    and r: "reconcileChildren a [v] s2 = Some s'"
    by blast
  from modify_dom_kept [OF s1] have "dom_kept s s1" by (simp add: dom_kept_def)
  with run_comp_dom_kept [OF c] reconcileChildren_dom_kept [OF r] show ?thesis
    by (blast intro: dom_kept_trans)
qed

lemma updateHostComponent_reconciles:
  assumes "updateHostComponent a s = Some s'" and f: "fiber_at s a = Some f"
  shows "\<exists>p cs s1. props f = Some p \<and> map_of p ''children'' = Some (JArr cs)
     \<and> reconcileChildren a (flat cs) s1 = Some s'
     \<and> (if dom' f = None
        then type f \<notin> range (Some \<circ> Fn) \<and> a < length (fibers s)
             \<and> s1 = s\<lparr>domNext := domNext s + 1,
                    domLog := domLog s @ creation f (domNext s) # updateDom (domNext s) [] p,
                    fibers := (fibers s)[a := f\<lparr>dom' := Some (domNext s)\<rparr>]\<rparr>
        else s1 = s)"
proof -
  from assms [unfolded updateHostComponent_def bind_eq_Some_conv] f
  obtain s1 p children where
    s1: "(if dom' f = None then
                do {
                  (node, s') \<leftarrow> createDom f s;
                  modify a (\<lambda>f. f\<lparr>dom' := Some node\<rparr>) s'
                }
              else Some s) = Some s1"
    and p: "props f = Some p"
    and ch: "(case map_of p ''children'' of Some (JArr cs) \<Rightarrow> Some cs | _ \<Rightarrow> None) = Some children"
    and r: "reconcileChildren a (flat children) s1 = Some s'"
    by auto
  from ch have ch': "map_of p ''children'' = Some (JArr children)"
    by (auto split: option.splits jsval.splits)
  show ?thesis
  proof (cases "dom' f = None")
    case False
    with s1 p ch' r show ?thesis by auto
  next
    case True
    with s1 obtain node s0 where c: "createDom f s = Some (node, s0)"
      and m: "modify a (\<lambda>f. f\<lparr>dom' := Some node\<rparr>) s0 = Some s1"
      by (auto simp: bind_eq_Some_conv)
    from c p have t: "type f \<notin> range (Some \<circ> Fn)"
      and s0: "s0 = emit (creation f (domNext s) # updateDom (domNext s) [] p) (s\<lparr>domNext := domNext s + 1\<rparr>)"
      and n: "node = domNext s"
      unfolding createDom_def creation_def
      by (auto simp: bind_eq_Some_conv split: option.splits etype.splits)
    from m s0 n f have "a < length (fibers s) \<and> s1 = s\<lparr>domNext := domNext s + 1,
                    domLog := domLog s @ creation f (domNext s) # updateDom (domNext s) [] p,
                    fibers := (fibers s)[a := f\<lparr>dom' := Some (domNext s)\<rparr>]\<rparr>"
      by (auto simp: modify_def emit_def fiber_at_def split: if_splits)
    with True t p ch' r show ?thesis by auto
  qed
qed

lemma nextSibling_chain:
  "chain parent s start as \<Longrightarrow> nextSibling start s = Some (nearest_sibling s as)"
proof (induction as arbitrary: start)
  case Nil
  then show ?case by (subst nextSibling.simps) simp
next
  case (Cons a as)
  from Cons.prems have st: "start = Some a" and a: "a < length (fibers s)"
    and c: "chain parent s (parent (fibers s ! a)) as"
    by simp_all
  show ?case
    by (subst nextSibling.simps)
       (simp add: st fiber_at_def a Cons.IH [OF c] split: option.splits)
qed

lemma is_none_collapse: "\<not> Option.is_none x \<Longrightarrow> x = Some (the x)"
  by (cases x) simp_all

lemma flat_append: "flat (xs @ ys) = flat xs @ flat ys"
  by (simp add: flat_def)

lemma flat_array: "flat (JArr ys # zs) = ys @ flat zs"
  by (simp add: flat_def)

text \<open>
  Claim C10. When the update of a host fiber returns, its children were reconciled from
  the list \<open>props.children\<close> flattened by one level: an entry that is an array \<open>ys\<close>,
  after the entries \<open>xs\<close> and before the entries \<open>zs\<close>, contributes its own entries, which
  stand at consecutive positions from the length of the flattened \<open>xs\<close> on. When the
  update of a function component returns, the reconciler was called with the list that
  holds the one value the component returned, whatever it is: an array is then a single
  entry.
\<close>

theorem host_children_are_flattened:
  "(fiber_at s a = Some f \<and> props f = Some p
      \<and> map_of p ''children'' = Some (JArr (xs @ JArr ys # zs))
      \<and> updateHostComponent a s = Some s'
    \<longrightarrow> (\<exists>s0. reconcileChildren a (flat xs @ ys @ flat zs) s0 = Some s'))
   \<and> (\<forall>i < length ys. (flat xs @ ys @ flat zs) ! (length (flat xs) + i) = ys ! i)
   \<and> (updateFunctionComponent comps a s = Some s'
    \<longrightarrow> (\<exists>f r v s1 s2. fiber_at s1 a = Some f \<and> type f = Some (Fn r)
           \<and> run_comp (comps r (props f)) s1 = Some (v, s2)
           \<and> reconcileChildren a [v] s2 = Some s'))"
proof (intro conjI impI allI)
  assume h: "fiber_at s a = Some f \<and> props f = Some p
      \<and> map_of p ''children'' = Some (JArr (xs @ JArr ys # zs))
      \<and> updateHostComponent a s = Some s'"
  then have u: "updateHostComponent a s = Some s'" and f: "fiber_at s a = Some f" by simp_all
  from updateHostComponent_reconciles [OF u f] h
  show "\<exists>s0. reconcileChildren a (flat xs @ ys @ flat zs) s0 = Some s'"
    by (auto simp: flat_append flat_array)
next
  fix i assume "i < length ys"
  then show "(flat xs @ ys @ flat zs) ! (length (flat xs) + i) = ys ! i"
    by (simp add: nth_append)
next
  assume "updateFunctionComponent comps a s = Some s'"
  from updateFunctionComponent_reconciles [OF this]
  show "\<exists>f r v s1 s2. fiber_at s1 a = Some f \<and> type f = Some (Fn r)
           \<and> run_comp (comps r (props f)) s1 = Some (v, s2)
           \<and> reconcileChildren a [v] s2 = Some s'"
    by blast
qed

theorem host_children_are_flattened_witness:
  "map_option (\<lambda>s. (map type (fibers s), map parent (fibers s)))
      (updateHostComponent 1 list_page_at_ul)
     = Some ([None, Some (Host ''ul''), Some (Host ''li''), Some (Host ''li'')],
             [None, Some 0, Some 1, Some 1])
   \<and> map_option (\<lambda>s. (map type (fibers s), map parent (fibers s)))
      (updateFunctionComponent list_comps 1 list_comp_page_at_comp)
     = Some ([None, Some (Fn 0), None], [None, Some 0, Some 1])"
proof -
  let ?items = "[createElement (Host ''li'') None [JStr ''a''],
                 createElement (Host ''li'') None [JStr ''b'']]"
  define f where "f = fibers list_page_at_ul ! 1"
  define s' where "s' = the (updateHostComponent 1 list_page_at_ul)"
  define t' where "t' = the (updateFunctionComponent list_comps 1 list_comp_page_at_comp)"
  have "1 < length (fibers list_page_at_ul)" by code_simp
  then have 1: "fiber_at list_page_at_ul 1 = Some f"
    by (simp add: fiber_at_def f_def)
  have 2: "props f = Some [(''children'', JArr [JArr ?items])]"
    unfolding f_def by code_simp
  have "\<not> Option.is_none (updateHostComponent 1 list_page_at_ul)" by code_simp
  then have 3: "updateHostComponent 1 list_page_at_ul = Some s'"
    unfolding s'_def by (rule is_none_collapse)
  have "\<not> Option.is_none (updateFunctionComponent list_comps 1 list_comp_page_at_comp)"
    by code_simp
  then have 4: "updateFunctionComponent list_comps 1 list_comp_page_at_comp = Some t'"
    unfolding t'_def by (rule is_none_collapse)
  from host_children_are_flattened
         [of list_page_at_ul 1 f "[(''children'', JArr [JArr ?items])]" "[]" ?items "[]" s']
       1 2 3
  have "\<exists>s0. reconcileChildren 1 ?items s0 = Some s'"
    by (simp add: flat_def)
  moreover
  from host_children_are_flattened [of list_comp_page_at_comp 1 _ _ _ _ _ t' list_comps] 4
  have "\<exists>f r v s1 s2. fiber_at s1 1 = Some f \<and> type f = Some (Fn r)
           \<and> run_comp (list_comps r (props f)) s1 = Some (v, s2)
           \<and> reconcileChildren 1 [v] s2 = Some t'"
    by simp
  moreover
  have "map_option (\<lambda>s. (map type (fibers s), map parent (fibers s)))
      (updateHostComponent 1 list_page_at_ul)
     = Some ([None, Some (Host ''ul''), Some (Host ''li''), Some (Host ''li'')],
             [None, Some 0, Some 1, Some 1])"
    by code_simp
  moreover
  have "map_option (\<lambda>s. (map type (fibers s), map parent (fibers s)))
      (updateFunctionComponent list_comps 1 list_comp_page_at_comp)
     = Some ([None, Some (Fn 0), None], [None, Some 0, Some 1])"
    by code_simp
  ultimately show ?thesis by simp
qed

section \<open>The outcome of the reconciler\<close>

lemma upto_length [simp]:
  "length (fibers (reconcile_upto s wip es olds ds i)) = length (fibers s) + min i (length es)"
  by (simp add: reconcile_upto_def)

lemma upto_old:
  "k < length (fibers s) \<Longrightarrow> fibers (reconcile_upto s wip es olds ds i) ! k = old_fiber s wip es olds i k"
  by (simp add: reconcile_upto_def)

lemma upto_new:
  "j < min i (length es) \<Longrightarrow>
   fibers (reconcile_upto s wip es olds ds i) ! (length (fibers s) + j) = new_fiber s wip es olds i j"
  by (simp add: reconcile_upto_def)

lemma upto_0:
  assumes "deletions s = Some ds"
  shows "reconcile_upto s wip es olds ds 0 = s"
proof -
  have "map (\<lambda>k. if k < length (fibers s) then old_fiber s wip es olds 0 k
                  else new_fiber s wip es olds 0 (k - length (fibers s)))
          [0..<length (fibers s)] = fibers s"
    by (rule nth_equalityI) (simp_all add: old_fiber_def deleted_upto_def)
  with assms show ?thesis
    by (simp add: reconcile_upto_def deleted_upto_def)
qed

lemma chain_nth:
  "chain link s start as \<Longrightarrow> i < length as \<Longrightarrow>
   as ! i < length (fibers s)
   \<and> link (fibers s ! (as ! i)) = (if Suc i < length as then Some (as ! Suc i) else None)"
proof (induction as arbitrary: start i)
  case Nil
  then show ?case by simp
next
  case (Cons a as)
  show ?case
  proof (cases i)
    case 0
    with Cons.prems show ?thesis by (cases as) auto
  next
    case (Suc j)
    with Cons.prems Cons.IH [of "link (fibers s ! a)" j] show ?thesis by auto
  qed
qed

lemma chain_start:
  "chain link s start as \<Longrightarrow> start = (if as = [] then None else Some (as ! 0))"
  by (cases as) auto

lemma deleted_upto_Suc:
  "deleted_upto s es olds (Suc i) =
     deleted_upto s es olds i
       @ (if i < length olds \<and> \<not> matched s es olds i then [olds ! i] else [])"
proof (cases "i < length olds")
  case True
  then have "min (Suc i) (length olds) = Suc i" "min i (length olds) = i" by simp_all
  then show ?thesis by (simp add: deleted_upto_def)
next
  case False
  then have "min (Suc i) (length olds) = length olds" "min i (length olds) = length olds"
    by simp_all
  with False show ?thesis by (simp add: deleted_upto_def)
qed

lemma list_all_truthy_nth: "list_all truthy es \<Longrightarrow> i < length es \<Longrightarrow> truthy (es ! i)"
  by (simp add: list_all_length)

lemma modify_Some:
  "a < length (fibers s) \<Longrightarrow> modify a g s = Some (s\<lparr>fibers := (fibers s)[a := g (fibers s ! a)]\<rparr>)"
  by (simp add: modify_def)

lemma map_upt_update: "(map g [0..<N])[a := y] = map (g(a := y)) [0..<N]"
  by (rule nth_equalityI) (auto simp: nth_list_update)

lemma map_upt_snoc: "map g [0..<N] @ [x] = map (g(N := x)) [0..<Suc N]"
  by simp

lemma reconcile_step_eval:
  assumes "(case oldFiber of None \<Rightarrow> Some None
            | Some a \<Rightarrow> map_option Some (fiber_at s a)) = Some old"
    and "newFiberOf wip oldFiber old element = nfo"
    and "s1 = (case nfo of None \<Rightarrow> s | Some f \<Rightarrow> s\<lparr>fibers := fibers s @ [f]\<rparr>)"
    and "newFiber = (case nfo of None \<Rightarrow> None | Some f \<Rightarrow> Some (length (fibers s)))"
    and "markDeletion oldFiber (sameType old element) s1 = Some s2"
    and "linkFiber wip index element prevSibling newFiber s2 = Some s3"
  shows "reconcile_step wip element index oldFiber prevSibling s
         = Some (newFiber, (case old of None \<Rightarrow> None | Some f \<Rightarrow> sibling f), s3)"
  unfolding reconcile_step_def using assms by (cases nfo) (simp_all add: alloc_def)

lemma reconcile_step_upto:
  assumes w: "wip < length (fibers s)"
    and ch: "chain sibling s start olds"
    and tr: "list_all truthy es"
    and i: "i < max (length es) (length olds)"
  shows "reconcile_step wip (if i < length es then es ! i else JUndefined) i
           (if i < length olds then Some (olds ! i) else None)
           (if 0 < i \<and> i \<le> length es then Some (length (fibers s) + i - 1) else None)
           (reconcile_upto s wip es olds ds i)
         = Some (if i < length es then Some (length (fibers s) + i) else None,
                 if Suc i < length olds then Some (olds ! Suc i) else None,
                 reconcile_upto s wip es olds ds (Suc i))"
proof -
  let ?L = "length (fibers s)"
  let ?N' = "?L + min (Suc i) (length es)"
  let ?U = "reconcile_upto s wip es olds ds i"
  let ?e = "if i < length es then es ! i else JUndefined"
  let ?of = "if i < length olds then Some (olds ! i) else None"
  let ?old = "if i < length olds then Some (old_fiber s wip es olds i (olds ! i)) else None"
  let ?nf = "if i < length es then Some (?L + i) else None"
  let ?del = "i < length olds \<and> \<not> matched s es olds i"
  have o: "olds ! i < ?L" if "i < length olds"
    using chain_nth [OF ch that] by simp
  have sib: "sibling (fibers s ! (olds ! i)) = (if Suc i < length olds then Some (olds ! Suc i) else None)"
    if "i < length olds"
    using chain_nth [OF ch that] by simp
  have te: "truthy ?e \<longleftrightarrow> i < length es"
    using tr by (simp add: list_all_truthy_nth)
  have lookup: "(case ?of of None \<Rightarrow> Some None
               | Some a \<Rightarrow> map_option Some (fiber_at ?U a)) = Some ?old"
  proof (cases "i < length olds")
    case True
    from o [OF True] have "olds ! i < length (fibers ?U)" by simp
    with True o [OF True] show ?thesis by (simp add: fiber_at_def upto_old)
  next
    case False
    then show ?thesis by simp
  qed
  have same: "sameType ?old ?e = matched s es olds i"
    using te by (auto simp: sameType_def matched_def old_fiber_def)
  have nf: "newFiberOf wip ?of ?old ?e
        = (if i < length es then Some (new_fiber s wip es olds (Suc i) i) else None)"
    using te same
    by (auto simp: newFiberOf_def new_fiber_def old_fiber_def matched_def)
  define g where "g = (\<lambda>k. if k < length (fibers s) then old_fiber s wip es olds i k
                             else new_fiber s wip es olds i (k - length (fibers s)))"
  define g' where "g' = (\<lambda>k. if k < length (fibers s) then old_fiber s wip es olds (Suc i) k
                             else new_fiber s wip es olds (Suc i) (k - length (fibers s)))"
  define g1 where "g1 = (if i < length es then g(?L + i := new_fiber s wip es olds (Suc i) i) else g)"
  define g2 where "g2 = (if ?del then g1(olds ! i := (g1 (olds ! i))\<lparr>effectTag := Some DELETION\<rparr>)
                         else g1)"
  define g3 where "g3 = (if i = 0 then g2(wip := (g2 wip)\<lparr>child := ?nf\<rparr>)
                         else if i < length es
                         then g2(?L + i - 1 := (g2 (?L + i - 1))\<lparr>sibling := ?nf\<rparr>)
                         else g2)"
  define s1 where "s1 = s\<lparr>fibers := map g1 [0..<?N'],
                            deletions := Some (ds @ deleted_upto s es olds i)\<rparr>"
  define s2 where "s2 = s\<lparr>fibers := map g2 [0..<?N'],
                            deletions := Some (ds @ deleted_upto s es olds (Suc i))\<rparr>"
  define s3 where "s3 = s\<lparr>fibers := map g3 [0..<?N'],
                            deletions := Some (ds @ deleted_upto s es olds (Suc i))\<rparr>"
  have U: "?U = s\<lparr>fibers := map g [0..<?L + min i (length es)],
                  deletions := Some (ds @ deleted_upto s es olds i)\<rparr>"
    by (simp add: reconcile_upto_def g_def)
  have U': "reconcile_upto s wip es olds ds (Suc i)
        = s\<lparr>fibers := map g' [0..<?N'],
             deletions := Some (ds @ deleted_upto s es olds (Suc i))\<rparr>"
    by (simp add: reconcile_upto_def g'_def)
  have e1: "s1 = (case (if i < length es then Some (new_fiber s wip es olds (Suc i) i) else None) of
                   None \<Rightarrow> ?U | Some f \<Rightarrow> ?U\<lparr>fibers := fibers ?U @ [f]\<rparr>)"
  proof (cases "i < length es")
    case True
    then have "min i (length es) = i" "min (Suc i) (length es) = Suc i" by simp_all
    with True show ?thesis by (simp add: s1_def g1_def U)
  next
    case False
    then have "min i (length es) = length es" "min (Suc i) (length es) = length es" by simp_all
    with False show ?thesis by (simp add: s1_def g1_def U)
  qed
  have e1n: "?nf = (case (if i < length es then Some (new_fiber s wip es olds (Suc i) i) else None) of
                    None \<Rightarrow> None | Some f \<Rightarrow> Some (length (fibers ?U)))"
    by simp
  have e2: "markDeletion ?of (matched s es olds i) s1 = Some s2"
  proof (cases ?del)
    case True
    with o have "olds ! i < ?N'" by fastforce
    with True show ?thesis
      by (simp add: markDeletion_def modify_def s1_def s2_def g2_def deleted_upto_Suc
            map_upt_update del: upt_Suc)
  next
    case False
    then show ?thesis
      by (auto simp: markDeletion_def s1_def s2_def g2_def deleted_upto_Suc)
  qed
  have e3: "linkFiber wip i ?e (if 0 < i \<and> i \<le> length es then Some (?L + i - 1) else None) ?nf s2
           = Some s3"
  proof -
    consider "i = 0" | "0 < i" "i < length es" | "0 < i" "\<not> i < length es" by linarith
    then show ?thesis
    proof cases
      case 1
      with w show ?thesis
        by (simp add: linkFiber_def modify_def s2_def s3_def g3_def map_upt_update del: upt_Suc)
    next
      case 2
      with tr have "truthy (es ! i)" by (simp add: list_all_truthy_nth)
      with 2 show ?thesis
        by (simp add: linkFiber_def modify_def s2_def s3_def g3_def map_upt_update del: upt_Suc)
    next
      case 3
      then show ?thesis
        by (simp add: linkFiber_def s2_def s3_def g3_def te)
    qed
  qed
  have e4: "g3 k = g' k" if k: "k < ?N'" for k
  proof (cases "k < ?L")
    case True
    have k1: "g1 k = old_fiber s wip es olds i k"
      using True by (simp add: g1_def g_def)
    have k2: "g2 k = (if ?del \<and> k = olds ! i
                      then (old_fiber s wip es olds i k)\<lparr>effectTag := Some DELETION\<rparr>
                      else old_fiber s wip es olds i k)"
      using k1 by (auto simp: g2_def)
    have k3: "g3 k = (if i = 0 \<and> k = wip then (g2 k)\<lparr>child := ?nf\<rparr> else g2 k)"
      using True by (auto simp: g3_def)
    have k': "g' k = old_fiber s wip es olds (Suc i) k"
      using True by (simp add: g'_def)
    have nfe: "?nf = (if es = [] then None else Some ?L)" if "i = 0"
      using that by auto
    show ?thesis
      unfolding k3 k2 k'
      by (rule fiber.equality) (simp_all add: old_fiber_def deleted_upto_Suc nfe)
  next
    case False
    define j where "j = k - ?L"
    with False k have j: "k = ?L + j" "j < min (Suc i) (length es)" by (auto simp: min_def)
    have ow: "olds ! i \<noteq> k" if "i < length olds"
      using o [OF that] False by simp
    have wk: "wip \<noteq> k" using w False by simp
    have k2: "g2 k = g1 k"
      using ow by (auto simp: g2_def)
    have k3: "g3 k = (if 0 < i \<and> i < length es \<and> j = i - 1
                      then (g1 k)\<lparr>sibling := ?nf\<rparr> else g1 k)"
      using wk k2 j by (auto simp: g3_def)
    have k1: "g1 k = (if i < length es \<and> j = i then new_fiber s wip es olds (Suc i) i
                      else new_fiber s wip es olds i j)"
      using j by (auto simp: g1_def g_def)
    have k': "g' k = new_fiber s wip es olds (Suc i) j"
      using j by (simp add: g'_def)
    show ?thesis
      unfolding k3 k1 k'
      using j by (intro fiber.equality) (auto simp: new_fiber_def)
  qed

  then have "s3 = reconcile_upto s wip es olds ds (Suc i)"
    unfolding U' s3_def by (simp del: upt_Suc)
  moreover have "(case ?old of None \<Rightarrow> None | Some f \<Rightarrow> sibling f)
      = (if Suc i < length olds then Some (olds ! Suc i) else None)"
    using sib by (simp add: old_fiber_def)
  ultimately show ?thesis
    using reconcile_step_eval [OF lookup nf e1 e1n e2 [folded same] e3] by simp
qed


lemma reconcile_loop_upto:
  assumes w: "wip < length (fibers s)"
    and ch: "chain sibling s start olds"
    and tr: "list_all truthy es"
  shows "i \<le> max (length es) (length olds) \<Longrightarrow>
         reconcile_loop wip es i
           (if i < length olds then Some (olds ! i) else None)
           (if 0 < i \<and> i \<le> length es then Some (length (fibers s) + i - 1) else None)
           (reconcile_upto s wip es olds ds i)
         = Some (reconciled s wip es olds ds)"
proof (induction "max (length es) (length olds) - i" arbitrary: i)
  case 0
  then have i: "i = max (length es) (length olds)" by (simp add: max_def split: if_splits)
  then have "\<not> (i < length es \<or> (if i < length olds then Some (olds ! i) else None) \<noteq> None)"
    by auto
  then show ?case
    by (subst reconcile_loop.simps) (simp add: reconciled_def i)
next
  case (Suc k)
  then have i: "i < max (length es) (length olds)" and k: "k = max (length es) (length olds) - Suc i"
    and le: "Suc i \<le> max (length es) (length olds)"
    by simp_all
  from i have c: "i < length es \<or> (if i < length olds then Some (olds ! i) else None) \<noteq> None"
    by auto
  have p: "(if 0 < Suc i \<and> Suc i \<le> length es then Some (length (fibers s) + Suc i - 1) else None)
      = (if i < length es then Some (length (fibers s) + i) else None)"
    by auto
  show ?case
    apply (subst reconcile_loop.simps)
    apply (simp only: c if_True reconcile_step_upto [OF w ch tr i] Option.bind.simps prod.case)
    using Suc.hyps(1) [OF k le] p
    apply simp
    done
qed

lemma reconcileChildren_closed_form:
  assumes pf: "fiber_at s wip = Some wfib"
    and alt: "case alternate wfib of None \<Rightarrow> start = None
              | Some a \<Rightarrow> a < length (fibers s) \<and> start = child (fibers s ! a)"
    and ch: "chain sibling s start olds"
    and tr: "list_all truthy es"
    and ds: "deletions s = Some ds"
  shows "reconcileChildren wip es s = Some (reconciled s wip es olds ds)"
proof -
  from pf have w: "wip < length (fibers s)"
    by (auto simp: fiber_at_def split: if_splits)
  from alt have o: "(case alternate wfib of None \<Rightarrow> Some None
                    | Some alt \<Rightarrow> map_option child (fiber_at s alt)) = Some start"
    by (auto simp: fiber_at_def split: option.splits)
  have st: "start = (if 0 < length olds then Some (olds ! 0) else None)"
    using chain_start [OF ch] by auto
  from reconcile_loop_upto [OF w ch tr, of 0 ds]
  have "reconcile_loop wip es 0 start None s = Some (reconciled s wip es olds ds)"
    by (simp add: upto_0 [OF ds] st)
  with pf o show ?thesis
    by (simp add: reconcileChildren_def)
qed

lemma chain_unique: "chain link s start xs \<Longrightarrow> chain link s start ys \<Longrightarrow> xs = ys"
proof (induction xs arbitrary: start ys)
  case Nil
  then show ?case by (cases ys) auto
next
  case (Cons a xs)
  then show ?case by (cases ys) auto
qed

lemma chain_suffix: "chain link s start (us @ ws) \<Longrightarrow> \<exists>st. chain link s st ws"
  by (induction us arbitrary: start) auto

lemma chain_distinct: "chain link s start xs \<Longrightarrow> distinct xs"
proof (induction xs arbitrary: start)
  case Nil
  then show ?case by simp
next
  case (Cons a xs)
  then have c: "chain link s (link (fibers s ! a)) xs" by simp
  have "a \<notin> set xs"
  proof
    assume "a \<in> set xs"
    then obtain us vs where xs: "xs = us @ a # vs" by (meson split_list)
    with c obtain st where "chain link s st (a # vs)" using chain_suffix by blast
    then have "chain link s (link (fibers s ! a)) vs" by simp
    from chain_unique [OF this c] xs show False by simp
  qed
  with Cons.IH [OF c] show ?case by simp
qed

lemma reconciled_length:
  "length (fibers (reconciled s wip es olds ds)) = length (fibers s) + length es"
  by (simp add: reconciled_def)

lemma reconciled_new:
  "j < length es \<Longrightarrow>
   fibers (reconciled s wip es olds ds) ! (length (fibers s) + j)
     = new_fiber s wip es olds (max (length es) (length olds)) j"
  unfolding reconciled_def by (rule upto_new) simp

lemma reconciled_old:
  "k < length (fibers s) \<Longrightarrow>
   fibers (reconciled s wip es olds ds) ! k
     = old_fiber s wip es olds (max (length es) (length olds)) k"
  unfolding reconciled_def by (rule upto_old)

lemma deleted_all:
  "deleted_upto s es olds (max (length es) (length olds))
     = map (\<lambda>j. olds ! j) (filter (\<lambda>j. \<not> matched s es olds j) [0..<length olds])"
  by (simp add: deleted_upto_def)

lemma matched_not_deleted:
  assumes "distinct olds" and "j < length olds" and "matched s es olds j"
  shows "olds ! j \<notin> set (deleted_upto s es olds i)"
proof
  assume "olds ! j \<in> set (deleted_upto s es olds i)"
  then obtain j' where "j' < length olds" "\<not> matched s es olds j'" "olds ! j' = olds ! j"
    by (auto simp: deleted_upto_def)
  with assms show False by (auto simp: nth_eq_iff_index_eq)
qed

lemma unmatched_deleted:
  assumes "j < length olds" and "\<not> matched s es olds j"
  shows "olds ! j \<in> set (deleted_upto s es olds (max (length es) (length olds)))"
  using assms by (auto simp: deleted_all)

text \<open>
  Claim C3. Let the fiber \<open>wip\<close> exist, let \<open>olds\<close> be the child of its alternate followed by
  its siblings (none without alternate), let every entry of \<open>es\<close> be truthy, as element
  objects are, and let the list of deletions hold \<open>ds\<close>. Then \<open>reconcileChildren\<close> returns, and
  it has walked both lists by position: it has created one new fiber per element, behind
  the fibers of \<open>s\<close> and in the order of the elements, each with \<open>wip\<close> as parent and the
  next one as sibling. Where the position is matched (both sides exist with equal type),
  the new fiber is an \<open>UPDATE\<close> with the type and the node of the old fiber, the props of the
  element and the old fiber as alternate, and the old fiber keeps its tag; otherwise the
  new fiber is a \<open>PLACEMENT\<close> with no node and no alternate. An old fiber at an unmatched
  position is tagged \<open>DELETION\<close>, and these fibers are appended to the deletions in order;
  an old fiber by itself gives no new fiber. The first new fiber is the child of \<open>wip\<close>.
\<close>

theorem reconcileChildren_by_position:
  assumes pf: "fiber_at s wip = Some wfib"
    and alt: "case alternate wfib of None \<Rightarrow> start = None
              | Some a \<Rightarrow> a < length (fibers s) \<and> start = child (fibers s ! a)"
    and ch: "chain sibling s start olds"
    and tr: "list_all truthy es"
    and ds: "deletions s = Some ds"
  shows "\<exists>s'. reconcileChildren wip es s = Some s'
     \<and> length (fibers s') = length (fibers s) + length es
     \<and> (\<forall>j < length es.
          fibers s' ! (length (fibers s) + j) =
            (if matched s es olds j then
               \<lparr> type = type (fibers s ! (olds ! j)), props = elem_props (es ! j),
                 dom' = dom' (fibers s ! (olds ! j)), parent = Some wip, child = None,
                 sibling = (if Suc j < length es then Some (length (fibers s) + Suc j) else None),
                 alternate = Some (olds ! j), effectTag = Some UPDATE, hooks = None \<rparr>
             else
               \<lparr> type = elem_type (es ! j), props = elem_props (es ! j),
                 dom' = None, parent = Some wip, child = None,
                 sibling = (if Suc j < length es then Some (length (fibers s) + Suc j) else None),
                 alternate = None, effectTag = Some PLACEMENT, hooks = None \<rparr>))
     \<and> (\<forall>j < length olds.
          effectTag (fibers s' ! (olds ! j)) =
            (if matched s es olds j then effectTag (fibers s ! (olds ! j)) else Some DELETION))
     \<and> deletions s' =
         Some (ds @ map (\<lambda>j. olds ! j) (filter (\<lambda>j. \<not> matched s es olds j) [0..<length olds]))
     \<and> (es \<noteq> [] \<longrightarrow> child (fibers s' ! wip) = Some (length (fibers s)))"
proof -
  let ?s' = "reconciled s wip es olds ds"
  let ?M = "max (length es) (length olds)"
  from pf have w: "wip < length (fibers s)"
    by (auto simp: fiber_at_def split: if_splits)
  have r: "reconcileChildren wip es s = Some ?s'"
    by (rule reconcileChildren_closed_form [OF pf alt ch tr ds])
  have n: "fibers ?s' ! (length (fibers s) + j) =
            (if matched s es olds j then
               \<lparr> type = type (fibers s ! (olds ! j)), props = elem_props (es ! j),
                 dom' = dom' (fibers s ! (olds ! j)), parent = Some wip, child = None,
                 sibling = (if Suc j < length es then Some (length (fibers s) + Suc j) else None),
                 alternate = Some (olds ! j), effectTag = Some UPDATE, hooks = None \<rparr>
             else
               \<lparr> type = elem_type (es ! j), props = elem_props (es ! j),
                 dom' = None, parent = Some wip, child = None,
                 sibling = (if Suc j < length es then Some (length (fibers s) + Suc j) else None),
                 alternate = None, effectTag = Some PLACEMENT, hooks = None \<rparr>)"
    if "j < length es" for j
    using that by (simp add: reconciled_new new_fiber_def)
  have d: "distinct olds" by (rule chain_distinct [OF ch])
  have e: "effectTag (fibers ?s' ! (olds ! j)) =
            (if matched s es olds j then effectTag (fibers s ! (olds ! j)) else Some DELETION)"
    if "j < length olds" for j
  proof -
    from chain_nth [OF ch that] have "olds ! j < length (fibers s)" by simp
    then have "fibers ?s' ! (olds ! j) = old_fiber s wip es olds ?M (olds ! j)"
      by (rule reconciled_old)
    with matched_not_deleted [OF d that, of s es ?M] unmatched_deleted [OF that, of s es]
    show ?thesis by (auto simp: old_fiber_def)
  qed
  have dl: "deletions ?s' =
         Some (ds @ map (\<lambda>j. olds ! j) (filter (\<lambda>j. \<not> matched s es olds j) [0..<length olds]))"
    by (simp add: reconciled_def reconcile_upto_def deleted_all)
  have c: "child (fibers ?s' ! wip) = Some (length (fibers s))" if "es \<noteq> []"
  proof -
    from that have "0 < ?M" by (cases es) auto
    with that show ?thesis by (simp add: reconciled_old [OF w] old_fiber_def)
  qed
  from r n e dl c show ?thesis
    by (simp add: reconciled_length)
qed

theorem reconcileChildren_by_position_witness:
  "map_option (\<lambda>s'. (length (fibers s'), fibers s' ! 6, map effectTag (fibers s'), deletions s',
                      child (fibers s' ! 5)))
     (reconcileChildren 5 [createElement (Host ''h1'') None []] one_item_at_div)
   = Some (7,
       \<lparr> type = Some (Host ''h1''), props = Some [(''children'', JArr [])], dom' = Some 2,
         parent = Some 5, child = None, sibling = None, alternate = Some 2,
         effectTag = Some UPDATE, hooks = None \<rparr>,
       [None, Some PLACEMENT, Some PLACEMENT, Some DELETION, None, Some UPDATE, Some UPDATE],
       Some [3], Some 6)"
proof -
  let ?es = "[createElement (Host ''h1'') None []]"
  have "5 < length (fibers one_item_at_div)" by code_simp
  then have pf: "fiber_at one_item_at_div 5 = Some (fibers one_item_at_div ! 5)"
    by (simp add: fiber_at_def)
  have alt: "case alternate (fibers one_item_at_div ! 5) of None \<Rightarrow> Some 2 = None
     | Some a \<Rightarrow> a < length (fibers one_item_at_div) \<and> Some 2 = child (fibers one_item_at_div ! a)"
    by code_simp
  have ch: "chain sibling one_item_at_div (Some 2) [2, 3]" by code_simp
  have tr: "list_all truthy ?es" by code_simp
  have ds: "deletions one_item_at_div = Some []" by code_simp
  from reconcileChildren_by_position [OF pf alt ch tr ds]
  obtain s' where "reconcileChildren 5 ?es one_item_at_div = Some s'"
    and "length (fibers s') = length (fibers one_item_at_div) + length ?es"
    by blast
  then have r: "\<not> Option.is_none (reconcileChildren 5 ?es one_item_at_div)" by simp
  have "\<not> Option.is_none (reconcileChildren 5 ?es one_item_at_div) \<longrightarrow>
     map_option (\<lambda>s'. (length (fibers s'), fibers s' ! 6, map effectTag (fibers s'), deletions s',
                      child (fibers s' ! 5)))
     (reconcileChildren 5 ?es one_item_at_div)
   = Some (7,
       \<lparr> type = Some (Host ''h1''), props = Some [(''children'', JArr [])], dom' = Some 2,
         parent = Some 5, child = None, sibling = None, alternate = Some 2,
         effectTag = Some UPDATE, hooks = None \<rparr>,
       [None, Some PLACEMENT, Some PLACEMENT, Some DELETION, None, Some UPDATE, Some UPDATE],
       Some [3], Some 6)"
    by code_simp
  with r show ?thesis by blast
qed

section \<open>The work loop as a run of units\<close>

lemma units_idle: "nextUnitOfWork s = None \<Longrightarrow> units comps k s = Some s"
  by (induction k) simp_all

lemma work_units: "work comps d s = units comps (Suc d) s"
proof (induction d arbitrary: s)
  case 0
  have "x \<bind> units comps 0 = x" for x by (cases x) simp_all
  then have "units comps (Suc 0) s = work comps 0 s" by (simp del: units.simps(1))
  then show ?case by simp
next
  case (Suc d)
  show ?case
  proof (cases "nextUnitOfWork s")
    case None
    with units_idle [OF None, of comps "Suc (Suc d)"] show ?thesis by simp
  next
    case (Some a)
    show ?thesis
    proof (cases "performUnitOfWork comps a s")
      case None
      with Some show ?thesis by simp
    next
      case (Some r)
      with \<open>nextUnitOfWork s = Some a\<close> Suc [of "(snd r)\<lparr>nextUnitOfWork := fst r\<rparr>"]
      show ?thesis by (cases r) simp
    qed
  qed
qed

lemma units_add: "units comps (j + k) s = units comps j s \<bind> units comps k"
proof (induction j arbitrary: s)
  case 0
  show ?case by simp
next
  case (Suc j)
  show ?case by (cases "work comps 0 s") (simp_all add: Suc)
qed

lemma units_builds:
  assumes "units comps k s = Some s'" and tf: "trigger_free_comps comps"
  shows "builds_only s s'"
  using assms(1)
proof (induction k arbitrary: s)
  case 0
  then show ?case by simp
next
  case (Suc k)
  then obtain s1 where 1: "work comps 0 s = Some s1" and 2: "units comps k s1 = Some s'"
    by (auto simp: bind_eq_Some_conv)
  from work_builds [OF 1 tf] Suc.IH [OF 2] show ?case by (rule builds_only_trans)
qed

text \<open>Two runs of units from the same state that both end with no work left end alike.\<close>

lemma units_final_unique:
  assumes "units comps j s = Some a" and "nextUnitOfWork a = None"
    and "units comps k s = Some b" and "nextUnitOfWork b = None"
  shows "a = b"
proof -
  have *: "a' = b'" if "j' \<le> k'" "units comps j' s = Some a'" "nextUnitOfWork a' = None"
    "units comps k' s = Some b'" for j' k' a' b'
  proof -
    from that(1) obtain d where "k' = j' + d" by (auto simp: le_iff_add)
    with that(4) units_add [of comps j' d s] that(2) have "units comps d a' = Some b'" by simp
    with units_idle [OF that(3)] show ?thesis by simp
  qed
  show ?thesis
  proof (cases "j \<le> k")
    case True
    from * [OF True assms(1,2,3)] show ?thesis .
  next
    case False
    then have "k \<le> j" by simp
    from * [OF this assms(3,4,1)] show ?thesis by simp
  qed
qed

lemma commitRoot_done:
  assumes "commitRoot s = Some s'" and "nextUnitOfWork s = None"
  shows "nextUnitOfWork s' = None \<and> wipRoot s' = None"
  using commitRoot_result [OF assms(1)] assms(2) by (auto simp: emit_def)

lemma workLoop_done:
  assumes "nextUnitOfWork s = None" and "wipRoot s = None"
  shows "workLoop comps d s = Some s"
  using assms by (cases d) (simp_all add: workLoop_def)

lemma idle_done:
  assumes "nextUnitOfWork s = None" and "wipRoot s = None"
  shows "idle comps ds s = Some s"
  using assms by (induction ds) (simp_all add: workLoop_done)

text \<open>
  Whatever the deadlines, a run of the work loop from a state with a wip root is a run of
  units of work, followed, if the wip root is gone, by the commit of the state in which
  no work was left.
\<close>

lemma idle_units:
  assumes "idle comps ds s = Some s'" and "wipRoot s \<noteq> None"
    and tf: "trigger_free_comps comps"
  shows "(\<exists>k. units comps k s = Some s' \<and> wipRoot s' \<noteq> None)
       \<or> (\<exists>k t. units comps k s = Some t \<and> nextUnitOfWork t = None \<and> commitRoot t = Some s')"
  using assms(1,2)
proof (induction ds arbitrary: s' rule: rev_induct)
  case Nil
  then have "units comps 0 s = Some s' \<and> wipRoot s' \<noteq> None" by simp
  then show ?case by blast
next
  case (snoc d ds)
  have idle_app: "idle comps (xs @ ys) x = idle comps xs x \<bind> idle comps ys" for xs ys x
    by (induction xs arbitrary: x) (auto split: option.splits)
  from snoc.prems obtain m where m: "idle comps ds s = Some m" and w: "workLoop comps d m = Some s'"
    by (auto simp: idle_app bind_eq_Some_conv split: option.splits)
  from snoc.IH [OF m snoc.prems(2)] show ?case
  proof
    assume "\<exists>k. units comps k s = Some m \<and> wipRoot m \<noteq> None"
    then obtain k where k: "units comps k s = Some m" and wm: "wipRoot m \<noteq> None" by blast
    from w obtain m1 where m1: "work comps d m = Some m1"
      and c: "(if nextUnitOfWork m1 = None \<and> wipRoot m1 \<noteq> None then commitRoot m1 else Some m1) = Some s'"
      by (auto simp: workLoop_def bind_eq_Some_conv)
    from m1 have "units comps (Suc d) m = Some m1" by (simp only: work_units)
    with k have u: "units comps (k + Suc d) s = Some m1"
      by (simp only: units_add bind.bind_lunit)
    from work_builds [OF m1 tf] wm have wm1: "wipRoot m1 \<noteq> None"
      by (simp add: builds_only_def)
    show ?thesis
    proof (cases "nextUnitOfWork m1 = None")
      case True
      with c wm1 have "commitRoot m1 = Some s'" by simp
      with u True show ?thesis by blast
    next
      case False
      with c have "s' = m1" by simp
      with u wm1 show ?thesis by blast
    qed
  next
    assume "\<exists>k t. units comps k s = Some t \<and> nextUnitOfWork t = None \<and> commitRoot t = Some m"
    then obtain k t where t: "units comps k s = Some t" "nextUnitOfWork t = None" "commitRoot t = Some m"
      by blast
    from commitRoot_done [OF t(3,2)] w have "s' = m" by (simp add: workLoop_done)
    with t show ?thesis by blast
  qed
qed

lemma idle_committed:
  assumes i: "idle comps ds s = Some s'" and w: "wipRoot s \<noteq> None" and w': "wipRoot s' = None"
    and u: "units comps k s = Some t" and n: "nextUnitOfWork t = None"
    and tf: "trigger_free_comps comps"
  shows "commitRoot t = Some s'"
proof -
  from idle_units [OF i w tf] w' obtain k' t' where
    "units comps k' s = Some t'" "nextUnitOfWork t' = None" "commitRoot t' = Some s'"
    by auto
  with units_final_unique [OF u n this(1,2)] show ?thesis by simp
qed

section \<open>Rendering a tree of host elements\<close>

lemma host_tree_cases:
  assumes "host_tree v"
  obtains tag ps cs where "v = JElem (Host tag) ps" "map_of ps ''children'' = Some (JArr cs)"
    "kids v = flat cs" "list_all host_tree (kids v)"
proof -
  from assms obtain tag ps where v: "v = JElem (Host tag) ps"
    by (cases v rule: host_tree.cases) auto
  with assms obtain cs where "map_of ps ''children'' = Some (JArr cs)" "list_all host_tree (flat cs)"
    by (auto split: option.splits jsval.splits)
  with v that show thesis by (simp add: kids_def)
qed

lemma host_tree_induct [consumes 1, case_names node]:
  assumes "host_tree v"
    and "\<And>v. host_tree v \<Longrightarrow> (\<And>k. k \<in> set (kids v) \<Longrightarrow> P k) \<Longrightarrow> P v"
  shows "P v"
  using assms(1)
proof (induction v rule: host_tree.induct)
  case (1 tag ps)
  from 1(2) obtain cs where cs: "map_of ps ''children'' = Some (JArr cs)" "list_all host_tree (flat cs)"
    by (auto split: option.splits jsval.splits)
  then have k: "kids (JElem (Host tag) ps) = flat cs" by (simp add: kids_def)
  show ?case
  proof (rule assms(2) [OF 1(2)])
    fix k assume "k \<in> set (kids (JElem (Host tag) ps))"
    with k have kk: "k \<in> set (flat cs)" by simp
    with cs(2) have "host_tree k" by (simp add: list_all_iff)
    with 1(1) [OF cs(1) refl kk] show "P k" .
  qed
qed simp_all

lemma updateDom_same:
  assumes "\<forall>(k, v) \<in> set p. k \<noteq> ''children'' \<longrightarrow> strict_eq v v"
  shows "updateDom node p p = []"
proof -
  have in_p: "key_in k p" if "(k, w) \<in> set p" for k w
    using that by (force simp: key_in_def has_key_def map_of_eq_None_iff)
  have same: "same_member (member_of p k) (member_of p k)"
    if "(k, w) \<in> set p" "k \<noteq> ''children''" for k w
  proof -
    from that(1) obtain v where v: "map_of p k = Some v"
      by (cases "map_of p k") (force simp: map_of_eq_None_iff)+
    then have "(k, v) \<in> set p" by (rule map_of_SomeD)
    with assms that(2) have "strict_eq v v" by auto
    with v show ?thesis by (simp add: member_of_def)
  qed
  have ev: "isEvent k \<Longrightarrow> k \<noteq> ''children''" for k by (auto simp: isEvent_def)
  have "filter (\<lambda>key. \<not> key_in key p \<or> isNew p p key) (filter isEvent (object_keys p)) = []"
    unfolding isNew_def object_keys_def filter_empty_conv using in_p same ev by auto
  moreover have "filter (isGone p p) (filter isProperty (object_keys p)) = []"
    unfolding isGone_def object_keys_def filter_empty_conv using in_p by auto
  moreover have "filter (isNew p p) (filter isProperty (object_keys p)) = []"
    unfolding isNew_def object_keys_def filter_empty_conv using same
    by (auto simp: isProperty_def)
  moreover have "filter (isNew p p) (filter isEvent (object_keys p)) = []"
    unfolding isNew_def object_keys_def filter_empty_conv using same ev by auto
  ultimately show ?thesis by (simp add: updateDom_def)
qed

lemma nextSibling_frame:
  assumes a: "nextSibling start s = Some r"
    and len: "length (fibers s) \<le> length (fibers s')"
    and same: "\<And>k. k < length (fibers s) \<Longrightarrow>
       parent (fibers s' ! k) = parent (fibers s ! k) \<and> sibling (fibers s' ! k) = sibling (fibers s ! k)"
  shows "nextSibling start s' = Some r"
proof -
  have "length (fibers s) \<le> length (fibers s') \<longrightarrow>
    (\<forall>k < length (fibers s). parent (fibers s' ! k) = parent (fibers s ! k)
        \<and> sibling (fibers s' ! k) = sibling (fibers s ! k)) \<longrightarrow>
    nextSibling start s' = Some r"
  proof (rule nextSibling.raw_induct [OF _ a], goal_cases)
    case (1 loop st s0 r0)
    show ?case
    proof (intro impI)
      assume l: "length (fibers s0) \<le> length (fibers s')"
        and k: "\<forall>k < length (fibers s0). parent (fibers s' ! k) = parent (fibers s0 ! k)
        \<and> sibling (fibers s' ! k) = sibling (fibers s0 ! k)"
      show "nextSibling st s' = Some r0"
      proof (cases st)
        case None
        with 1(2) show ?thesis by (subst nextSibling.simps) simp
      next
        case (Some a)
        with 1(2) obtain f where f: "fiber_at s0 a = Some f"
          and r: "(case sibling f of Some b \<Rightarrow> Some (Some b) | None \<Rightarrow> loop (parent f) s0) = Some r0"
          by (auto simp: bind_eq_Some_conv)
        from f have a: "a < length (fibers s0)" "f = fibers s0 ! a"
          by (auto simp: fiber_at_def split: if_splits)
        with l have f': "fiber_at s' a = Some (fibers s' ! a)" by (simp add: fiber_at_def)
        from k a have e: "parent (fibers s' ! a) = parent f" "sibling (fibers s' ! a) = sibling f"
          by auto
        show ?thesis
        proof (cases "sibling f")
          case None
          with r have "loop (parent f) s0 = Some r0" by simp
          from 1(1) [OF this] l k have "nextSibling (parent f) s' = Some r0" by blast
          with None Some f' e show ?thesis by (subst nextSibling.simps) simp
        next
          case (Some b)
          with r have "r0 = Some b" by simp
          with Some \<open>st = Some a\<close> f' e show ?thesis by (subst nextSibling.simps) simp
        qed
      qed
    qed
  qed
  with len same show ?thesis by blast
qed

lemma chain_cong:
  assumes "chain link s start as"
    and "\<And>a. a \<in> set as \<Longrightarrow> a < length (fibers s') \<and> link (fibers s' ! a) = link (fibers s ! a)"
  shows "chain link s' start as"
  using assms by (induction as arbitrary: start) auto

lemma chain_upt:
  assumes "L + n \<le> length (fibers s)"
    and "\<And>j. j < n \<Longrightarrow> link (fibers s ! (L + j)) = (if Suc j < n then Some (L + Suc j) else None)"
  shows "chain link s (if n = 0 then None else Some L) [L..<L + n]"
  using assms
proof (induction n arbitrary: L)
  case 0
  show ?case by simp
next
  case (Suc n)
  have "chain link s (if n = 0 then None else Some (Suc L)) [Suc L..<Suc L + n]"
  proof (rule Suc.IH)
    show "Suc L + n \<le> length (fibers s)" using Suc.prems(1) by simp
    fix j assume "j < n"
    with Suc.prems(2) [of "Suc j"] show
      "link (fibers s ! (Suc L + j)) = (if Suc j < n then Some (Suc L + Suc j) else None)"
      by simp
  qed
  moreover from Suc.prems(2) [of 0] have "link (fibers s ! L) = (if n = 0 then None else Some (Suc L))"
    by simp
  moreover have "[L..<L + Suc n] = L # [Suc L..<Suc L + n]" by (simp add: upt_rec)
  ultimately show ?case using Suc.prems(1) by simp
qed

lemma reconciled_globals:
  "domLog (reconciled s wip es olds ds) = domLog s"
  "domNext (reconciled s wip es olds ds) = domNext s"
  "wipRoot (reconciled s wip es olds ds) = wipRoot s"
  "currentRoot (reconciled s wip es olds ds) = currentRoot s"
  "deletions (reconciled s wip es olds ds)
     = Some (ds @ deleted_upto s es olds (max (length es) (length olds)))"
  by (simp_all add: reconciled_def reconcile_upto_def)

text \<open>One unit of work on a host fiber, forwards.\<close>

lemma unit_host:
  assumes cur: "nextUnitOfWork s = Some c"
    and f: "fiber_at s c = Some f"
    and host: "\<not> isFunctionComponent f"
    and p: "props f = Some ps" and k: "map_of ps ''children'' = Some (JArr ks)"
    and tr: "list_all truthy (flat ks)"
    and ds: "deletions s = Some ds"
    and alt: "case alternate f of None \<Rightarrow> start = None
              | Some a \<Rightarrow> a < length (fibers s) \<and> start = child (fibers s ! a)"
    and ch: "chain sibling s start olds"
    and nx: "nextSibling (Some c) s = Some nx"
    and s0: "s0 = (if dom' f = None
        then s\<lparr>domNext := domNext s + 1,
               domLog := domLog s @ creation f (domNext s) # updateDom (domNext s) [] ps,
               fibers := (fibers s)[c := f\<lparr>dom' := Some (domNext s)\<rparr>]\<rparr>
        else s)"
    and s1: "s1 = reconciled s0 c (flat ks) olds ds"
  shows "work comps 0 s = Some (s1\<lparr>nextUnitOfWork :=
           (case child (fibers s1 ! c) of Some x \<Rightarrow> Some x | None \<Rightarrow> nx)\<rparr>)"
proof -
  from f have c: "c < length (fibers s)" and fc: "fibers s ! c = f"
    by (auto simp: fiber_at_def split: if_splits)
  have len0: "length (fibers s0) = length (fibers s)" by (simp add: s0)
  have fib0: "fibers s0 ! a = (if a = c \<and> dom' f = None then f\<lparr>dom' := Some (domNext s)\<rparr>
    else fibers s ! a)" if "a < length (fibers s)" for a
    using that fc by (auto simp: s0)
  have pre: "(if dom' f = None then
                do { (node, s') \<leftarrow> createDom f s; modify c (\<lambda>f. f\<lparr>dom' := Some node\<rparr>) s' }
              else Some s) = Some s0"
  proof (cases "dom' f")
    case None
    from host obtain create where cr: "(case type f of
            None \<Rightarrow> Some (CreateElement (domNext s) ''undefined'')
          | Some (Host tag) \<Rightarrow>
              Some (if tag = ''TEXT_ELEMENT'' then CreateTextNode (domNext s) ''''
                    else CreateElement (domNext s) tag)
          | Some (Fn r) \<Rightarrow> None) = Some create" and cr': "create = creation f (domNext s)"
      by (auto simp: isFunctionComponent_def creation_def split: option.splits etype.splits)
    have "createDom f s = Some (domNext s,
        emit (creation f (domNext s) # updateDom (domNext s) [] ps) (s\<lparr>domNext := domNext s + 1\<rparr>))"
      unfolding createDom_def cr p cr' by simp
    with None c fc show ?thesis by (simp add: modify_def emit_def s0)
  next
    case (Some d)
    then show ?thesis by (simp add: s0)
  qed
  have f0: "fiber_at s0 c = Some (fibers s0 ! c)" using c len0 by (simp add: fiber_at_def)
  have alt0: "case alternate (fibers s0 ! c) of None \<Rightarrow> start = None
              | Some a \<Rightarrow> a < length (fibers s0) \<and> start = child (fibers s0 ! a)"
    using alt c fc by (auto simp: fib0 len0 split: option.splits)
  have ch0: "chain sibling s0 start olds"
  proof (rule chain_cong [OF ch])
    fix a assume "a \<in> set olds"
    with ch have "a < length (fibers s)"
      by (metis chain_nth in_set_conv_nth)
    then show "a < length (fibers s0) \<and> sibling (fibers s0 ! a) = sibling (fibers s ! a)"
      using fc by (simp add: fib0 len0)
  qed
  have ds0: "deletions s0 = Some ds" using ds by (simp add: s0)
  have rc: "reconcileChildren c (flat ks) s0 = Some s1"
    unfolding s1 by (rule reconcileChildren_closed_form [OF f0 alt0 ch0 tr ds0])
  have uh: "updateHostComponent c s = Some s1"
    unfolding updateHostComponent_def by (simp add: f pre p k rc)
  have c1: "c < length (fibers s1)" using c len0 by (simp add: s1 reconciled_length)
  then have f1: "fiber_at s1 c = Some (fibers s1 ! c)" by (simp add: fiber_at_def)
  have ns: "nextSibling (Some c) s1 = Some nx"
  proof (rule nextSibling_frame [OF nx])
    show "length (fibers s) \<le> length (fibers s1)" using len0 by (simp add: s1 reconciled_length)
    fix a assume a: "a < length (fibers s)"
    then have "fibers s1 ! a = old_fiber s0 c (flat ks) olds (max (length (flat ks)) (length olds)) a"
      unfolding s1 using len0 by (simp add: reconciled_old)
    then show "parent (fibers s1 ! a) = parent (fibers s ! a)
      \<and> sibling (fibers s1 ! a) = sibling (fibers s ! a)"
      using a fc by (simp add: old_fiber_def fib0)
  qed
  show ?thesis
    by (cases "child (fibers s1 ! c)")
      (simp_all add: cur performUnitOfWork_def f host uh f1 ns)
qed

lemma rendered_frame:
  assumes "rendered re lo s c v"
    and "length (fibers s) \<le> length (fibers s')"
    and "\<And>k. k < length (fibers s) \<Longrightarrow>
          (k = c \<or> lo \<le> k \<longrightarrow> fibers s' ! k = fibers s ! k)
          \<and> props (fibers s' ! k) = props (fibers s ! k)"
  shows "rendered re lo s' c v"
proof -
  have "(\<forall>k<length (fibers s). (k = c \<or> lo \<le> k \<longrightarrow> fibers s' ! k = fibers s ! k)
          \<and> props (fibers s' ! k) = props (fibers s ! k)) \<longrightarrow> rendered re lo s' c v"
    using assms(1)
  proof (induction rule: rendered.induct)
    case (node c v cs)
    show ?case
    proof
      assume fr: "\<forall>k<length (fibers s). (k = c \<or> lo \<le> k \<longrightarrow> fibers s' ! k = fibers s ! k)
          \<and> props (fibers s' ! k) = props (fibers s ! k)"
      from fr node(1) have c: "fibers s' ! c = fibers s ! c" by blast
      have cs: "cs ! i < length (fibers s) \<and> lo \<le> cs ! i" if "i < length cs" for i
        using chain_nth [OF node(7) that] node(9) that by blast
      have same: "fibers s' ! (cs ! i) = fibers s ! (cs ! i)" if "i < length cs" for i
        using cs [OF that] fr by blast
      show "rendered re lo s' c v"
      proof (rule rendered.node [where cs = cs])
        show "c < length (fibers s')" using node(1) assms(2) by simp
        show "type (fibers s' ! c) = elem_type v" using node(2) c by simp
        show "props (fibers s' ! c) = elem_props v" using node(3) c by simp
        show "dom' (fibers s' ! c) \<noteq> None" using node(4) c by simp
        show "effectTag (fibers s' ! c) = Some (if re then UPDATE else PLACEMENT)"
          using node(5) c by simp
        show "re \<longrightarrow> (\<exists>b<length (fibers s'). alternate (fibers s' ! c) = Some b
                    \<and> props (fibers s' ! b) = elem_props v)"
        proof
          assume re
          with node(6) obtain b where o: "b < length (fibers s)" "alternate (fibers s ! c) = Some b"
            "props (fibers s ! b) = elem_props v" by blast
          from fr o(1) have "props (fibers s' ! b) = props (fibers s ! b)" by blast
          with o c assms(2) show "\<exists>b<length (fibers s'). alternate (fibers s' ! c) = Some b
                    \<and> props (fibers s' ! b) = elem_props v" by auto
        qed
        show "chain sibling s' (child (fibers s' ! c)) cs"
          unfolding c
        proof (rule chain_cong [OF node(7)])
          fix a assume "a \<in> set cs"
          then obtain i where "i < length cs" "a = cs ! i" by (auto simp: in_set_conv_nth)
          with cs [of i] same [of i] assms(2)
          show "a < length (fibers s') \<and> sibling (fibers s' ! a) = sibling (fibers s ! a)" by simp
        qed
        show "length cs = length (kids v)" by (rule node(8))
        show "\<forall>i<length cs. lo \<le> cs ! i \<and> parent (fibers s' ! (cs ! i)) = Some c
            \<and> rendered re lo s' (cs ! i) (kids v ! i)"
        proof (intro allI impI)
          fix i assume i: "i < length cs"
          from node(9) i have 1: "lo \<le> cs ! i" "parent (fibers s ! (cs ! i)) = Some c"
            and 2: "(\<forall>k<length (fibers s). (k = cs ! i \<or> lo \<le> k \<longrightarrow> fibers s' ! k = fibers s ! k)
                \<and> props (fibers s' ! k) = props (fibers s ! k)) \<longrightarrow> rendered re lo s' (cs ! i) (kids v ! i)"
            by blast+
          from fr 1(1) have "\<forall>k<length (fibers s). (k = cs ! i \<or> lo \<le> k \<longrightarrow> fibers s' ! k = fibers s ! k)
                \<and> props (fibers s' ! k) = props (fibers s ! k)" by blast
          with 2 have "rendered re lo s' (cs ! i) (kids v ! i)" by blast
          with 1 same [OF i] show "lo \<le> cs ! i \<and> parent (fibers s' ! (cs ! i)) = Some c
            \<and> rendered re lo s' (cs ! i) (kids v ! i)" by simp
        qed
      qed
    qed
  qed
  with assms(3) show ?thesis by blast
qed

lemma rendered_mono:
  assumes "rendered re lo s c v" and "lo' \<le> lo"
  shows "rendered re lo' s c v"
  using assms(1)
proof (induction rule: rendered.induct)
  case (node c v cs)
  show ?case
  proof (rule rendered.node [where cs = cs])
    show "\<forall>i<length cs. lo' \<le> cs ! i \<and> parent (fibers s ! (cs ! i)) = Some c
            \<and> rendered re lo' s (cs ! i) (kids v ! i)"
      using node(9) assms(2) by auto
  qed (use node in blast)+
qed

lemma rendered_fibers:
  assumes "rendered re lo s c v" and "fibers s' = fibers s"
  shows "rendered re lo s' c v"
  by (rule rendered_frame [OF assms(1)]) (simp_all add: assms(2))

lemma frame_refl: "frame X s s"
  by (simp add: frame_def)

lemma frame_trans:
  assumes "frame X s s1" and "frame Y s1 s2" and "X \<subseteq> Z"
    and "\<And>y. y \<in> Y \<Longrightarrow> y < length (fibers s) \<Longrightarrow> y \<in> Z"
  shows "frame Z s s2"
proof -
  have "length (fibers s) \<le> length (fibers s2)" "deletions s2 = deletions s"
    using assms(1,2) by (auto simp: frame_def)
  moreover have "(k \<notin> Z \<longrightarrow> fibers s2 ! k = fibers s ! k)
            \<and> parent (fibers s2 ! k) = parent (fibers s ! k)
            \<and> sibling (fibers s2 ! k) = sibling (fibers s ! k)
            \<and> props (fibers s2 ! k) = props (fibers s ! k)
            \<and> effectTag (fibers s2 ! k) = effectTag (fibers s ! k)" if "k < length (fibers s)" for k
  proof -
    from that assms(1) have k1: "k < length (fibers s1)" by (simp add: frame_def)
    from assms(1) that have 1: "(k \<notin> X \<longrightarrow> fibers s1 ! k = fibers s ! k)
            \<and> parent (fibers s1 ! k) = parent (fibers s ! k)
            \<and> sibling (fibers s1 ! k) = sibling (fibers s ! k)
            \<and> props (fibers s1 ! k) = props (fibers s ! k)
            \<and> effectTag (fibers s1 ! k) = effectTag (fibers s ! k)" by (simp add: frame_def)
    from assms(2) k1 have 2: "(k \<notin> Y \<longrightarrow> fibers s2 ! k = fibers s1 ! k)
            \<and> parent (fibers s2 ! k) = parent (fibers s1 ! k)
            \<and> sibling (fibers s2 ! k) = sibling (fibers s1 ! k)
            \<and> props (fibers s2 ! k) = props (fibers s1 ! k)
            \<and> effectTag (fibers s2 ! k) = effectTag (fibers s1 ! k)" by (simp add: frame_def)
    from 1 2 assms(3) assms(4) [OF _ that] show ?thesis by auto
  qed
  ultimately show ?thesis by (simp add: frame_def)
qed

lemma frame_extends:
  assumes "frame X s s'" and "extends so s" and "\<And>x. x \<in> X \<Longrightarrow> length (fibers so) \<le> x"
  shows "extends so s'"
proof -
  have "fibers s' ! k = fibers so ! k" if "k < length (fibers so)" for k
  proof -
    from that assms(3) [of k] have "k \<notin> X" by auto
    moreover from that assms(2) have "k < length (fibers s)" "fibers s ! k = fibers so ! k"
      by (auto simp: extends_def)
    ultimately show ?thesis using assms(1) by (simp add: frame_def)
  qed
  moreover have "length (fibers so) \<le> length (fibers s')"
    using assms(1,2) by (simp add: frame_def extends_def)
  ultimately show ?thesis by (simp add: extends_def)
qed

lemma frame_nextSibling:
  assumes "frame X s s'" and "nextSibling start s = Some r"
  shows "nextSibling start s' = Some r"
  by (rule nextSibling_frame [OF assms(2)]) (use assms(1) in \<open>simp_all add: frame_def\<close>)

lemma pending_frame:
  assumes "pending re so s c v" and "frame X s s'" and "c \<notin> X"
  shows "pending re so s' c v"
proof -
  from assms(1) have c: "c < length (fibers s)" by (simp add: pending_def)
  with assms(2,3) have "fibers s' ! c = fibers s ! c" "c < length (fibers s')"
    by (auto simp: frame_def)
  with assms(1) show ?thesis by (simp add: pending_def)
qed

lemma worked_refl: "nextUnitOfWork s = nx \<Longrightarrow> worked re X nx s s"
  by (auto simp: worked_def frame_refl)

lemma worked_trans:
  assumes 1: "worked re X nx1 s s1" and 2: "worked re Y nx s1 s2" and "X \<subseteq> Z"
    and "\<And>y. y \<in> Y \<Longrightarrow> y < length (fibers s) \<Longrightarrow> y \<in> Z"
  shows "worked re Z nx s s2"
proof -
  from 1 2 have f1: "frame X s s1" and f2: "frame Y s1 s2" by (simp_all add: worked_def)
  have f: "frame Z s s2" by (rule frame_trans [OF f1 f2 assms(3,4)])
  have "effectTag (fibers s2 ! k) = Some UPDATE"
    if re and k: "length (fibers s) \<le> k" "k < length (fibers s2)" for k
  proof (cases "k < length (fibers s1)")
    case True
    with 1 \<open>re\<close> k(1) have "effectTag (fibers s1 ! k) = Some UPDATE" by (simp add: worked_def)
    with f2 True show ?thesis by (simp add: frame_def)
  next
    case False
    with 2 \<open>re\<close> k(2) show ?thesis by (simp add: worked_def)
  qed
  moreover have "domLog s2 = domLog s" if re using that 1 2 by (simp add: worked_def)
  moreover from 2 have "nextUnitOfWork s2 = nx" by (simp add: worked_def)
  ultimately show ?thesis using f by (simp add: worked_def)
qed

text \<open>
  A list of pending siblings is worked through one after the other, if each of their
  elements is.
\<close>

lemma forest_ok:
  assumes "\<forall>v \<in> set vs. tree_ok comps re so v"
    and "length cs = length vs"
    and "extends so s"
    and "\<forall>i<length cs. pending re so s (cs ! i) (vs ! i)
           \<and> sibling (fibers s ! (cs ! i)) = (if Suc i < length cs then Some (cs ! Suc i) else None)"
    and "distinct cs"
    and "nextUnitOfWork s = (if cs = [] then nx else Some (cs ! 0))"
    and "cs \<noteq> [] \<longrightarrow> nextSibling (Some (last cs)) s = Some nx"
    and "deletions s = Some ds"
  shows "\<exists>k s'. units comps k s = Some s' \<and> worked re (set cs) nx s s'
           \<and> (\<forall>i<length cs. rendered re (length (fibers s)) s' (cs ! i) (vs ! i))"
  using assms
proof (induction vs arbitrary: cs s)
  case Nil
  then have "units comps 0 s = Some s \<and> worked re (set cs) nx s s
    \<and> (\<forall>i<length cs. rendered re (length (fibers s)) s (cs ! i) ([] ! i))"
    by (simp add: worked_refl)
  then show ?case by blast
next
  case (Cons v vs)
  from Cons.prems(2) obtain c cs' where cs: "cs = c # cs'" and len: "length cs' = length vs"
    by (cases cs) auto
  let ?nx1 = "if cs' = [] then nx else Some (cs' ! 0)"
  from Cons.prems(4) cs have pc: "pending re so s c v"
    and sc: "sibling (fibers s ! c) = (if cs' = [] then None else Some (cs' ! 0))"
    by (auto simp: nth_Cons')
  from pc have cl: "c < length (fibers s)" and cso: "length (fibers so) \<le> c"
    by (simp_all add: pending_def)
  have pend': "pending re so s (cs' ! i) (vs ! i)
      \<and> sibling (fibers s ! (cs' ! i)) = (if Suc i < length cs' then Some (cs' ! Suc i) else None)"
    if "i < length cs'" for i
    using Cons.prems(4) [rule_format, of "Suc i"] that cs by simp
  have ns: "nextSibling (Some c) s = Some ?nx1"
  proof (cases "cs' = []")
    case True
    with Cons.prems(7) cs show ?thesis by simp
  next
    case False
    with sc cl show ?thesis by (subst nextSibling.simps) (simp add: fiber_at_def)
  qed
  from Cons.prems(1) have "tree_ok comps re so v" by simp
  with Cons.prems(3) pc Cons.prems(6) cs ns Cons.prems(8)
  obtain k1 s1 where u1: "units comps k1 s = Some s1" and r1: "worked re {c} ?nx1 s s1"
    and t1: "rendered re (length (fibers s)) s1 c v"
    unfolding tree_ok_def by (simp only: list.simps if_False nth_Cons_0) blast
  from r1 have f1: "frame {c} s s1" and n1: "nextUnitOfWork s1 = ?nx1" by (simp_all add: worked_def)
  from f1 have l1: "length (fibers s) \<le> length (fibers s1)" by (simp add: frame_def)
  from Cons.prems(5) cs have dist: "distinct cs'" and cn: "c \<notin> set cs'" by simp_all
  have "\<exists>k s'. units comps k s1 = Some s' \<and> worked re (set cs') nx s1 s'
           \<and> (\<forall>i<length cs'. rendered re (length (fibers s1)) s' (cs' ! i) (vs ! i))"
  proof (rule Cons.IH [OF _ len _ _ dist])
    show "\<forall>v\<in>set vs. tree_ok comps re so v" using Cons.prems(1) by simp
    show "extends so s1"
      by (rule frame_extends [OF f1 Cons.prems(3)]) (use cso in simp)
    show "\<forall>i<length cs'. pending re so s1 (cs' ! i) (vs ! i)
           \<and> sibling (fibers s1 ! (cs' ! i)) = (if Suc i < length cs' then Some (cs' ! Suc i) else None)"
    proof (intro allI impI)
      fix i assume i: "i < length cs'"
      with cn have ne: "cs' ! i \<notin> {c}" by (auto simp: in_set_conv_nth)
      from pend' [OF i] have "cs' ! i < length (fibers s)" by (simp add: pending_def)
      with f1 have "sibling (fibers s1 ! (cs' ! i)) = sibling (fibers s ! (cs' ! i))"
        by (simp add: frame_def)
      with pend' [OF i] pending_frame [OF _ f1 ne]
      show "pending re so s1 (cs' ! i) (vs ! i)
           \<and> sibling (fibers s1 ! (cs' ! i)) = (if Suc i < length cs' then Some (cs' ! Suc i) else None)"
        by simp
    qed
    show "nextUnitOfWork s1 = (if cs' = [] then nx else Some (cs' ! 0))" by (rule n1)
    show "cs' \<noteq> [] \<longrightarrow> nextSibling (Some (last cs')) s1 = Some nx"
    proof
      assume "cs' \<noteq> []"
      with Cons.prems(7) cs have "nextSibling (Some (last cs')) s = Some nx" by simp
      then show "nextSibling (Some (last cs')) s1 = Some nx" by (rule frame_nextSibling [OF f1])
    qed
    show "deletions s1 = Some ds" using f1 Cons.prems(8) by (simp add: frame_def)
  qed
  then obtain k2 s2 where u2: "units comps k2 s1 = Some s2" and r2: "worked re (set cs') nx s1 s2"
    and t2: "\<forall>i<length cs'. rendered re (length (fibers s1)) s2 (cs' ! i) (vs ! i)"
    by blast
  from r2 have f2: "frame (set cs') s1 s2" by (simp add: worked_def)
  have u: "units comps (k1 + k2) s = Some s2" by (simp add: units_add u1 u2)
  have r: "worked re (set cs) nx s s2"
    by (rule worked_trans [OF r1 r2]) (auto simp: cs)
  have t: "rendered re (length (fibers s)) s2 (cs ! i) ((v # vs) ! i)" if "i < length cs" for i
  proof (cases i)
    case 0
    have "rendered re (length (fibers s)) s2 c v"
    proof (rule rendered_frame [OF t1])
      show "length (fibers s1) \<le> length (fibers s2)" using f2 by (simp add: frame_def)
      fix k assume k: "k < length (fibers s1)"
      have "k \<notin> set cs'" if "k = c \<or> length (fibers s) \<le> k"
      proof
        assume "k \<in> set cs'"
        then obtain j where j: "j < length cs'" "k = cs' ! j" by (auto simp: in_set_conv_nth)
        from pend' [OF j(1)] j(2) have "k < length (fibers s)" by (simp add: pending_def)
        with that cn \<open>k \<in> set cs'\<close> show False by auto
      qed
      with f2 k show "(k = c \<or> length (fibers s) \<le> k \<longrightarrow> fibers s2 ! k = fibers s1 ! k)
          \<and> props (fibers s2 ! k) = props (fibers s1 ! k)"
        by (simp add: frame_def)
    qed
    with 0 cs show ?thesis by simp
  next
    case (Suc j)
    with that cs have j: "j < length cs'" by simp
    with t2 have "rendered re (length (fibers s1)) s2 (cs' ! j) (vs ! j)" by blast
    from rendered_mono [OF this l1] Suc cs show ?thesis by simp
  qed
  from u r t show ?case by blast
qed

lemma host_tree_truthy: "host_tree v \<Longrightarrow> truthy v"
  by (erule host_tree_cases) simp

lemma host_tree_host:
  assumes "host_tree v"
  shows "\<exists>tag. elem_type v = Some (Host tag)"
  using assms by (rule host_tree_cases) simp

text \<open>
  The unit of work on a host fiber whose children are trees of host elements: on a first
  pass, and on a second pass over old children that are finished fibers for the same
  elements.
\<close>

lemma host_unit:
  assumes trees: "list_all host_tree es"
    and ext: "extends so s"
    and c: "c < length (fibers s)" and cso: "length (fibers so) \<le> c"
    and host: "\<not> isFunctionComponent (fibers s ! c)"
    and p: "props (fibers s ! c) = Some ps"
    and k: "map_of ps ''children'' = Some (JArr ks)" and es: "es = flat ks"
    and ch0: "child (fibers s ! c) = None"
    and mode: "if re then dom' (fibers s ! c) \<noteq> None
                 \<and> (\<exists>a. alternate (fibers s ! c) = Some a \<and> old_kids so a es)
               else alternate (fibers s ! c) = None"
    and cur: "nextUnitOfWork s = Some c"
    and ns: "nextSibling (Some c) s = Some nx"
    and ds: "deletions s = Some ds"
  shows "\<exists>s1. work comps 0 s = Some s1
      \<and> length (fibers s1) = length (fibers s) + length es
      \<and> nextUnitOfWork s1 = (if es = [] then nx else Some (length (fibers s)))
      \<and> deletions s1 = Some ds
      \<and> (re \<longrightarrow> domLog s1 = domLog s)
      \<and> (\<forall>k<length (fibers s). k \<noteq> c \<longrightarrow> fibers s1 ! k = fibers s ! k)
      \<and> fibers s1 ! c = (fibers s ! c)\<lparr>child := (if es = [] then None else Some (length (fibers s))),
            dom' := dom' (fibers s1 ! c)\<rparr>
      \<and> dom' (fibers s1 ! c) \<noteq> None
      \<and> (\<forall>j<length es. pending re so s1 (length (fibers s) + j) (es ! j)
            \<and> parent (fibers s1 ! (length (fibers s) + j)) = Some c
            \<and> sibling (fibers s1 ! (length (fibers s) + j))
                = (if Suc j < length es then Some (length (fibers s) + Suc j) else None))"
proof -
  define f where "f = fibers s ! c"
  define L where "L = length (fibers s)"
  define n where "n = length es"
  note fd = f_def [symmetric] and Ld = L_def [symmetric] and nd = n_def [symmetric]
  have fa: "fiber_at s c = Some f" using c by (simp add: fiber_at_def f_def)
  have tr: "list_all truthy (flat ks)"
    using trees by (auto simp: es list_all_iff host_tree_truthy)
  obtain start olds where
    alt: "case alternate f of None \<Rightarrow> start = None
          | Some a \<Rightarrow> a < length (fibers s) \<and> start = child (fibers s ! a)"
    and ch: "chain sibling s start olds"
    and lo: "length olds = (if re then n else 0)"
    and olds: "\<And>j. j < length olds \<Longrightarrow>
        olds ! j < length (fibers so) \<and> rendered False 0 so (olds ! j) (es ! j)"
  proof (cases re)
    case False
    with mode have "alternate f = None" by (simp add: f_def)
    with False that [of None "[]"] show thesis by simp
  next
    case True
    with mode obtain a where a: "alternate f = Some a" and ok: "old_kids so a es"
      by (auto simp: f_def)
    from ok obtain cs where al: "a < length (fibers so)"
      and cs: "chain sibling so (child (fibers so ! a)) cs" "length cs = length es"
        "\<forall>i<length cs. rendered False 0 so (cs ! i) (es ! i)"
      by (auto simp: old_kids_def)
    have in_so: "cs ! i < length (fibers so)" if "i < length cs" for i
      using chain_nth [OF cs(1) that] by simp
    have "chain sibling s (child (fibers so ! a)) cs"
    proof (rule chain_cong [OF cs(1)])
      fix b assume "b \<in> set cs"
      then obtain i where "i < length cs" "b = cs ! i" by (auto simp: in_set_conv_nth)
      with in_so [of i] ext
      show "b < length (fibers s) \<and> sibling (fibers s ! b) = sibling (fibers so ! b)"
        by (simp add: extends_def)
    qed
    moreover from al ext have "a < length (fibers s)" "fibers s ! a = fibers so ! a"
      by (simp_all add: extends_def)
    ultimately show thesis
      using that [of "child (fibers so ! a)" cs] a True cs(2,3) in_so by (simp add: n_def)
  qed
  define s0 where "s0 = (if dom' f = None
        then s\<lparr>domNext := domNext s + 1,
               domLog := domLog s @ creation f (domNext s) # updateDom (domNext s) [] ps,
               fibers := (fibers s)[c := f\<lparr>dom' := Some (domNext s)\<rparr>]\<rparr>
        else s)"
  define s1r where "s1r = reconciled s0 c (flat ks) olds ds"
  define s1 where "s1 = s1r\<lparr>nextUnitOfWork :=
           (case child (fibers s1r ! c) of Some x \<Rightarrow> Some x | None \<Rightarrow> nx)\<rparr>"
  have w: "work comps 0 s = Some s1"
    unfolding s1_def
    by (rule unit_host [OF cur fa _ _ k tr ds alt ch ns s0_def s1r_def])
      (use host p in \<open>simp_all add: f_def\<close>)
  have len0: "length (fibers s0) = L" by (simp add: s0_def L_def)
  have fib0: "fibers s0 ! a = (if a = c \<and> dom' f = None then f\<lparr>dom' := Some (domNext s)\<rparr>
    else fibers s ! a)" if "a < L" for a
    using that by (auto simp: s0_def f_def L_def)
  have old0: "fibers s0 ! (olds ! j) = fibers so ! (olds ! j)" if "j < length olds" for j
  proof -
    from olds [OF that] cso have "olds ! j < length (fibers so)" "olds ! j \<noteq> c" by auto
    with ext c show ?thesis by (simp add: fib0 extends_def L_def)
  qed
  have old_type: "type (fibers so ! (olds ! j)) = elem_type (es ! j)
      \<and> dom' (fibers so ! (olds ! j)) \<noteq> None" if "j < length olds" for j
    using olds [OF that] by (auto elim: rendered.cases)
  have m: "matched s0 es olds j \<longleftrightarrow> re" if "j < n" for j
    using that lo old0 [of j] old_type [of j] by (auto simp: matched_def n_def)
  have max: "max (length es) (length olds) = n" using lo by (simp add: n_def)
  have del: "deleted_upto s0 es olds n = []"
  proof -
    have "\<forall>j \<in> set [0..<length olds]. matched s0 es olds j"
      using lo m by (auto split: if_splits)
    then have "filter (\<lambda>j. \<not> matched s0 es olds j) [0..<length olds] = []"
      by (simp add: filter_empty_conv)
    with deleted_all [of s0 es olds] show ?thesis by (simp add: max)
  qed
  have l1: "length (fibers s1) = L + n"
    by (simp add: s1_def s1r_def reconciled_length len0 es n_def)
  have old1: "fibers s1 ! a = (fibers s0 ! a)\<lparr>child :=
      (if a = c \<and> 0 < n then Some L else child (fibers s0 ! a))\<rparr>" if "a < L" for a
  proof -
    from that have "fibers s1 ! a = old_fiber s0 c es olds n a"
      using reconciled_old [of a s0 c es olds ds] by (simp add: s1_def s1r_def len0 es [symmetric] max)
    also have "\<dots> = (fibers s0 ! a)\<lparr>child :=
        (if a = c \<and> 0 < n then (if es = [] then None else Some L) else child (fibers s0 ! a))\<rparr>"
      by (simp add: old_fiber_def del len0)
    also have "\<dots> = (fibers s0 ! a)\<lparr>child :=
        (if a = c \<and> 0 < n then Some L else child (fibers s0 ! a))\<rparr>"
      by (auto simp: n_def)
    finally show ?thesis .
  qed
  have new1: "fibers s1 ! (L + j) = new_fiber s0 c es olds n j" if "j < n" for j
    using reconciled_new [of j es s0 c olds ds] that
    by (simp add: s1_def s1r_def len0 es [symmetric] max n_def)
  have c1: "fibers s1 ! c = f\<lparr>child := (if es = [] then None else Some L),
      dom' := (if dom' f = None then Some (domNext s) else dom' f)\<rparr>"
    using c ch0 by (auto simp: old1 fib0 L_def f_def n_def)
  have other: "fibers s1 ! a = fibers s ! a" if "a < L" "a \<noteq> c" for a
    using that by (simp add: old1 fib0)
  have cur1: "nextUnitOfWork s1 = (if es = [] then nx else Some L)"
    using c1 by (simp add: s1_def)
  have ds1: "deletions s1 = Some ds"
    by (simp add: s1_def s1r_def reconciled_globals del max es [symmetric])
  have log1: "domLog s1 = domLog s" if re
    using that mode by (simp add: s1_def s1r_def reconciled_globals s0_def f_def)
  have soL: "length (fibers so) \<le> L" using ext by (simp add: extends_def L_def)
  have mn: "min n (length es) = n" by (simp add: n_def)
  have kid: "pending re so s1 (L + j) (es ! j)
            \<and> parent (fibers s1 ! (L + j)) = Some c
            \<and> sibling (fibers s1 ! (L + j)) = (if Suc j < n then Some (L + Suc j) else None)"
    if j: "j < n" for j
  proof (cases re)
    case False
    with m [OF j] have "\<not> matched s0 es olds j" by simp
    with j False soL show ?thesis
      by (simp add: new1 new_fiber_def pending_def len0 l1 mn)
  next
    case True
    with m [OF j] have mt: "matched s0 es olds j" by simp
    from True lo j have jo: "j < length olds" by simp
    from old_type [OF jo] olds [OF jo] mt j True soL show ?thesis
      by (simp add: new1 new_fiber_def pending_def len0 l1 mn old0 [OF jo])
  qed
  have dom1: "dom' (fibers s1 ! c) \<noteq> None" by (simp add: c1)
  have c1': "fibers s1 ! c = (fibers s ! c)\<lparr>child := (if es = [] then None else Some L),
      dom' := dom' (fibers s1 ! c)\<rparr>"
    by (simp add: c1 f_def)
  from w l1 cur1 ds1 log1 other c1' dom1 kid show ?thesis
    unfolding L_def n_def by blast
qed

section \<open>The unit of work and its successor\<close>

lemma shape_kept_refl: "shape_kept s s"
  by (simp add: shape_kept_def)

lemma shape_kept_trans:
  assumes "shape_kept s s1" and "shape_kept s1 s2"
  shows "shape_kept s s2"
proof -
  have "(fibers s2 ! k)\<lparr>hooks := hooks (fibers s ! k), dom' := dom' (fibers s ! k)\<rparr>
              = fibers s ! k" if k: "k < length (fibers s)" for k
  proof -
    from k assms(1) have k1: "k < length (fibers s1)" by (simp add: shape_kept_def)
    from assms(1) k have 1: "(fibers s1 ! k)\<lparr>hooks := hooks (fibers s ! k), dom' := dom' (fibers s ! k)\<rparr>
              = fibers s ! k" by (simp add: shape_kept_def)
    from assms(2) k1 have 2: "(fibers s2 ! k)\<lparr>hooks := hooks (fibers s1 ! k), dom' := dom' (fibers s1 ! k)\<rparr>
              = fibers s1 ! k" by (simp add: shape_kept_def)
    have "(fibers s2 ! k)\<lparr>hooks := hooks (fibers s ! k), dom' := dom' (fibers s ! k)\<rparr>
      = ((fibers s2 ! k)\<lparr>hooks := hooks (fibers s1 ! k), dom' := dom' (fibers s1 ! k)\<rparr>)
          \<lparr>hooks := hooks (fibers s ! k), dom' := dom' (fibers s ! k)\<rparr>" by simp
    also have "\<dots> = fibers s ! k" unfolding 2 by (rule 1)
    finally show ?thesis .
  qed
  moreover from assms have "length (fibers s) \<le> length (fibers s2)" by (simp add: shape_kept_def)
  ultimately show ?thesis by (simp add: shape_kept_def)
qed

lemma shape_kept_fields:
  assumes "shape_kept s s'" and "k < length (fibers s)"
  shows "k < length (fibers s')" "parent (fibers s' ! k) = parent (fibers s ! k)"
    "child (fibers s' ! k) = child (fibers s ! k)" "sibling (fibers s' ! k) = sibling (fibers s ! k)"
    "alternate (fibers s' ! k) = alternate (fibers s ! k)" "type (fibers s' ! k) = type (fibers s ! k)"
    "props (fibers s' ! k) = props (fibers s ! k)" "effectTag (fibers s' ! k) = effectTag (fibers s ! k)"
proof -
  from assms have e: "(fibers s' ! k)\<lparr>hooks := hooks (fibers s ! k), dom' := dom' (fibers s ! k)\<rparr>
              = fibers s ! k" by (simp add: shape_kept_def)
  from assms show "k < length (fibers s')" by (simp add: shape_kept_def)
  from arg_cong [OF e, of parent] show "parent (fibers s' ! k) = parent (fibers s ! k)" by simp
  from arg_cong [OF e, of child] show "child (fibers s' ! k) = child (fibers s ! k)" by simp
  from arg_cong [OF e, of sibling] show "sibling (fibers s' ! k) = sibling (fibers s ! k)" by simp
  from arg_cong [OF e, of alternate] show "alternate (fibers s' ! k) = alternate (fibers s ! k)" by simp
  from arg_cong [OF e, of type] show "type (fibers s' ! k) = type (fibers s ! k)" by simp
  from arg_cong [OF e, of props] show "props (fibers s' ! k) = props (fibers s ! k)" by simp
  from arg_cong [OF e, of effectTag] show "effectTag (fibers s' ! k) = effectTag (fibers s ! k)" by simp
qed

lemma modify_shape_kept:
  assumes "modify a g s = Some s'"
    and "\<And>f. (g f)\<lparr>hooks := hooks f, dom' := dom' f\<rparr> = f"
  shows "shape_kept s s'"
  using assms by (auto simp: modify_def shape_kept_def nth_list_update split: if_splits)

lemma useState_shape_kept:
  assumes "useState initial s = Some (r, s')"
  shows "shape_kept s s'"
proof -
  from assms obtain w where w: "wipFiber s = Some w"
    by (auto simp: useState_def split: Option.bind_splits)
  from assms w obtain wfib where wfib: "fiber_at s w = Some wfib"
    by (auto simp: useState_def split: Option.bind_splits)
  from assms w wfib obtain oh where oh: "(case alternate wfib of None \<Rightarrow> Some None
          | Some alt \<Rightarrow>
              do {
                af \<leftarrow> fiber_at s alt;
                (case hooks af of None \<Rightarrow> Some None
                 | Some hs \<Rightarrow>
                     if hookIndex s < length hs
                     then map_option Some (hook_at s (hs ! hookIndex s))
                     else Some None)
              }) = Some oh"
    unfolding useState_def by (auto split: Option.bind_splits)
  from assms w wfib oh obtain hs where hs: "hooks wfib = Some hs"
    unfolding useState_def by (auto simp: Let_def split: Option.bind_splits)
  from assms w wfib hs show ?thesis
    unfolding useState_def
    by (auto simp: oh Let_def modify_def shape_kept_def nth_list_update split: if_splits)
qed

lemma setState_shape_kept:
  assumes "setState h action s = Some s'"
  shows "shape_kept s s'"
  using assms
  by (auto simp: setState_def Let_def alloc_def shape_kept_def bind_eq_Some_conv nth_append)

lemma render_shape_kept: "shape_kept s (render element container s)"
  by (simp add: render_def alloc_def shape_kept_def nth_append)

lemma run_comp_shape_kept: "run_comp c s = Some (v, s') \<Longrightarrow> shape_kept s s'"
proof (induction c arbitrary: s)
  case (Return x)
  then show ?case by (simp add: shape_kept_refl)
next
  case (UseState initial k)
  from UseState.prems obtain r s1 where u: "useState initial s = Some (r, s1)"
    and r: "run_comp (k r) s1 = Some (v, s')"
    by (auto split: option.splits)
  from useState_shape_kept [OF u] UseState.IH [OF _ r] show ?case
    by (blast intro: shape_kept_trans)
next
  case (CallSetter h action k)
  from CallSetter.prems obtain s1 where u: "setState h action s = Some s1"
    and r: "run_comp k s1 = Some (v, s')"
    by (auto split: option.splits)
  from setState_shape_kept [OF u] CallSetter.IH [OF r] show ?case
    by (blast intro: shape_kept_trans)
next
  case (CallRender element container k)
  then have r: "run_comp k (render element container s) = Some (v, s')" by simp
  from render_shape_kept CallRender.IH [OF r] show ?case
    by (blast intro: shape_kept_trans)
qed

lemma chain_shape_kept:
  assumes "chain link s start as" and "shape_kept s s'"
    and "\<And>k. k < length (fibers s) \<Longrightarrow> link (fibers s' ! k) = link (fibers s ! k)"
  shows "chain link s' start as"
proof (rule chain_cong [OF assms(1)])
  fix a assume "a \<in> set as"
  with assms(1) have "a < length (fibers s)" by (metis chain_nth in_set_conv_nth)
  with assms(2,3) show "a < length (fibers s') \<and> link (fibers s' ! a) = link (fibers s ! a)"
    by (simp add: shape_kept_def)
qed

text \<open>
  Claim C7. Let \<open>f\<close> be the fiber \<open>a\<close>, let \<open>as\<close> be \<open>a\<close> and its ancestors, and let \<open>olds\<close> be the
  children of its alternate. The elements \<open>es\<close> of its children and the state \<open>s0\<close> in which
  they are reconciled are: for a function component, the one value that the call of the
  component returns and the state that the call leaves; for a host fiber, the array
  \<open>props.children\<close> flattened by one level and the given state, in which a DOM node has
  been created, initialised from the props and stored in the fiber if and only if the
  fiber had none. If the entries of \<open>es\<close> are truthy and the list of deletions is
  initialised, \<open>performUnitOfWork\<close> returns, and the state it leaves is the outcome of the
  reconciler for \<open>a\<close>, \<open>es\<close> and \<open>olds\<close> in \<open>s0\<close>: one new fiber per element, behind the fibers
  of \<open>s0\<close>, with \<open>a\<close> as parent, the props of its element, and the next one as sibling. The
  fiber it returns is the successor of \<open>a\<close> in depth-first pre-order: the first of the new
  fibers if there is one, else the sibling of the nearest of \<open>a\<close> and its ancestors that
  has a sibling, else no fiber. (A fiber that had a child already and gets no element and
  has no old fiber keeps that child.) The reconciler makes no DOM call and neither does
  the call of a function component.
\<close>

theorem performUnitOfWork_preorder:
  assumes f: "fiber_at s a = Some f"
    and elems: "if isFunctionComponent f
       then \<exists>r. type f = Some (Fn r) \<and> es = [v]
              \<and> run_comp (comps r (props f))
                   (s\<lparr>wipFiber := Some a, hookIndex := 0,
                      fibers := (fibers s)[a := f\<lparr>hooks := Some []\<rparr>]\<rparr>) = Some (v, s0)
       else \<exists>ps ks. props f = Some ps \<and> map_of ps ''children'' = Some (JArr ks) \<and> es = flat ks
              \<and> s0 = (if dom' f = None
                       then s\<lparr>domNext := domNext s + 1,
                              domLog := domLog s @ creation f (domNext s)
                                          # updateDom (domNext s) [] ps,
                              fibers := (fibers s)[a := f\<lparr>dom' := Some (domNext s)\<rparr>]\<rparr>
                       else s)"
    and tr: "list_all truthy es"
    and ds: "deletions s0 = Some ds"
    and alt: "case alternate f of None \<Rightarrow> start = None
              | Some b \<Rightarrow> b < length (fibers s) \<and> start = child (fibers s ! b)"
    and ch: "chain sibling s start olds"
    and anc: "chain parent s (Some a) as"
    and s1: "s1 = reconciled s0 a es olds ds"
  shows "performUnitOfWork comps a s = Some (preorder_next s1 as, s1)
     \<and> preorder_next s1 as
         = (if es \<noteq> [] then Some (length (fibers s0))
            else if olds = [] \<and> child f \<noteq> None then child f
            else nearest_sibling s as)
     \<and> length (fibers s1) = length (fibers s0) + length es
     \<and> (\<forall>j<length es. parent (fibers s1 ! (length (fibers s0) + j)) = Some a
           \<and> props (fibers s1 ! (length (fibers s0) + j)) = elem_props (es ! j)
           \<and> sibling (fibers s1 ! (length (fibers s0) + j))
               = (if Suc j < length es then Some (length (fibers s0) + Suc j) else None))
     \<and> domLog s1 = domLog s0 \<and> dom' (fibers s1 ! a) = dom' (fibers s0 ! a)
     \<and> (isFunctionComponent f \<longrightarrow> domLog s0 = domLog s \<and> dom' (fibers s0 ! a) = dom' f)"
proof -
  from f have a: "a < length (fibers s)" and fa: "fibers s ! a = f"
    by (auto simp: fiber_at_def split: if_splits)
  define sm where "sm = s\<lparr>wipFiber := Some a, hookIndex := 0,
                      fibers := (fibers s)[a := f\<lparr>hooks := Some []\<rparr>]\<rparr>"
  have sk_m: "shape_kept s sm"
    using a fa by (auto simp: sm_def shape_kept_def nth_list_update)
  have sk: "shape_kept s s0"
  proof (cases "isFunctionComponent f")
    case True
    with elems obtain r where "run_comp (comps r (props f)) sm = Some (v, s0)"
      by (auto simp: sm_def)
    from shape_kept_trans [OF sk_m run_comp_shape_kept [OF this]] show ?thesis .
  next
    case False
    with elems a fa show ?thesis
      by (auto simp: shape_kept_def nth_list_update split: if_splits)
  qed
  have up: "(if isFunctionComponent f then updateFunctionComponent comps a s
             else updateHostComponent a s) = reconcileChildren a es s0"
  proof (cases "isFunctionComponent f")
    case True
    with elems obtain r where r: "type f = Some (Fn r)" and es: "es = [v]"
      and rc: "run_comp (comps r (props f)) sm = Some (v, s0)"
      by (auto simp: sm_def)
    have m: "modify a (\<lambda>f. f\<lparr>hooks := Some []\<rparr>) (s\<lparr>wipFiber := Some a, hookIndex := 0\<rparr>) = Some sm"
      using a fa by (simp add: modify_def sm_def)
    have fm: "fiber_at sm a = Some (f\<lparr>hooks := Some []\<rparr>)"
      using a by (simp add: fiber_at_def sm_def)
    from True show ?thesis
      by (simp add: updateFunctionComponent_def m fm r rc es)
  next
    case False
    with elems obtain ps ks where p: "props f = Some ps"
      and k: "map_of ps ''children'' = Some (JArr ks)" and es: "es = flat ks"
      and s0: "s0 = (if dom' f = None
                     then s\<lparr>domNext := domNext s + 1,
                            domLog := domLog s @ creation f (domNext s)
                                        # updateDom (domNext s) [] ps,
                            fibers := (fibers s)[a := f\<lparr>dom' := Some (domNext s)\<rparr>]\<rparr>
                     else s)"
      by auto
    have pre: "(if dom' f = None then
              do { (node, s') \<leftarrow> createDom f s; modify a (\<lambda>f. f\<lparr>dom' := Some node\<rparr>) s' }
            else Some s) = Some s0"
    proof (cases "dom' f")
      case None
      from False obtain create where cr: "(case type f of
          None \<Rightarrow> Some (CreateElement (domNext s) ''undefined'')
        | Some (Host tag) \<Rightarrow>
            Some (if tag = ''TEXT_ELEMENT'' then CreateTextNode (domNext s) ''''
                  else CreateElement (domNext s) tag)
        | Some (Fn r) \<Rightarrow> None) = Some create" and cr': "create = creation f (domNext s)"
        by (auto simp: isFunctionComponent_def creation_def split: option.splits etype.splits)
      have "createDom f s = Some (domNext s,
          emit (creation f (domNext s) # updateDom (domNext s) [] ps) (s\<lparr>domNext := domNext s + 1\<rparr>))"
        unfolding createDom_def cr p cr' by simp
      with None a fa show ?thesis by (simp add: modify_def emit_def s0)
    next
      case (Some d)
      then show ?thesis by (simp add: s0)
    qed
    from False show ?thesis
      by (simp add: updateHostComponent_def f pre p k es)
  qed
  have dk: "isFunctionComponent f \<longrightarrow> domLog s0 = domLog s \<and> dom' (fibers s0 ! a) = dom' f"
  proof
    assume "isFunctionComponent f"
    with elems obtain r where "run_comp (comps r (props f)) sm = Some (v, s0)"
      by (auto simp: sm_def)
    from run_comp_dom_kept [OF this] a fa show "domLog s0 = domLog s \<and> dom' (fibers s0 ! a) = dom' f"
      by (simp add: dom_kept_def sm_def)
  qed
  note kf = shape_kept_fields [OF sk]
  have a0: "a < length (fibers s0)" by (rule kf(1) [OF a])
  have f0: "fiber_at s0 a = Some (fibers s0 ! a)" using a0 by (simp add: fiber_at_def)
  have alt0: "case alternate (fibers s0 ! a) of None \<Rightarrow> start = None
              | Some b \<Rightarrow> b < length (fibers s0) \<and> start = child (fibers s0 ! b)"
    using alt kf(5) [OF a] fa kf(1,3) by (auto split: option.splits)
  have ch0: "chain sibling s0 start olds"
    by (rule chain_shape_kept [OF ch sk]) (rule kf(4))
  have anc0: "chain parent s0 (Some a) as"
    by (rule chain_shape_kept [OF anc sk]) (rule kf(2))
  have rc: "reconcileChildren a es s0 = Some s1"
    unfolding s1 by (rule reconcileChildren_closed_form [OF f0 alt0 ch0 tr ds])
  have l1: "length (fibers s1) = length (fibers s0) + length es"
    by (simp add: s1 reconciled_length)
  have old1: "fibers s1 ! k = old_fiber s0 a es olds (max (length es) (length olds)) k"
    if "k < length (fibers s0)" for k
    unfolding s1 by (rule reconciled_old [OF that])
  have anc1: "chain parent s1 (Some a) as"
  proof (rule chain_cong [OF anc0])
    fix k assume "k \<in> set as"
    with anc0 have "k < length (fibers s0)" by (metis chain_nth in_set_conv_nth)
    then show "k < length (fibers s1) \<and> parent (fibers s1 ! k) = parent (fibers s0 ! k)"
      by (simp add: old1 old_fiber_def l1)
  qed
  from anc obtain as' where as: "as = a # as'" by (cases as) auto
  have a1: "fiber_at s1 a = Some (fibers s1 ! a)" using a0 by (simp add: fiber_at_def l1)
  have 1: "performUnitOfWork comps a s = Some (preorder_next s1 as, s1)"
  proof (cases "child (fibers s1 ! a)")
    case None
    with nextSibling_chain [OF anc1] f up rc a1 show ?thesis
      by (simp add: performUnitOfWork_def preorder_next_def as)
  next
    case (Some b)
    with f up rc a1 show ?thesis
      by (simp add: performUnitOfWork_def preorder_next_def as)
  qed
  have ch1: "child (fibers s1 ! a)
      = (if es \<noteq> [] then Some (length (fibers s0))
         else if olds = [] then child f else None)"
    using kf(3) [OF a] fa by (auto simp: old1 [OF a0] old_fiber_def max_def)
  have ns: "nearest_sibling s1 as = nearest_sibling s as"
  proof -
    have "set xs \<subseteq> {k. k < length (fibers s)} \<Longrightarrow> nearest_sibling s1 xs = nearest_sibling s xs" for xs
    proof (induction xs)
      case Nil
      show ?case by simp
    next
      case (Cons x xs)
      then have x: "x < length (fibers s)" by simp
      from kf(1) [OF x] have "sibling (fibers s1 ! x) = sibling (fibers s0 ! x)"
        by (simp add: old1 old_fiber_def)
      with kf(4) [OF x] Cons show ?case by (simp split: option.splits)
    qed
    moreover have "set as \<subseteq> {k. k < length (fibers s)}"
      using anc by (metis chain_nth in_set_conv_nth mem_Collect_eq subsetI)
    ultimately show ?thesis by blast
  qed
  have 2: "preorder_next s1 as
         = (if es \<noteq> [] then Some (length (fibers s0))
            else if olds = [] \<and> child f \<noteq> None then child f
            else nearest_sibling s as)"
    using ns by (auto simp: preorder_next_def as ch1 split: option.splits)
  have 3: "parent (fibers s1 ! (length (fibers s0) + j)) = Some a
           \<and> props (fibers s1 ! (length (fibers s0) + j)) = elem_props (es ! j)
           \<and> sibling (fibers s1 ! (length (fibers s0) + j))
               = (if Suc j < length es then Some (length (fibers s0) + Suc j) else None)"
    if "j < length es" for j
    using that by (simp add: s1 reconciled_new new_fiber_def)
  have 4: "domLog s1 = domLog s0" by (simp add: s1 reconciled_globals)
  have 5: "dom' (fibers s1 ! a) = dom' (fibers s0 ! a)"
    by (simp add: old1 [OF a0] old_fiber_def)
  from 1 2 l1 3 4 5 dk show ?thesis by blast
qed

theorem performUnitOfWork_preorder_witness:
  "map_option fst (performUnitOfWork counter_comps 2 counter_page_at_comp) = Some (Some 3)
   \<and> map_option (\<lambda>(n, s). (map type (fibers s), map parent (fibers s), map child (fibers s),
                            map sibling (fibers s), map dom' (fibers s), domLog s))
        (performUnitOfWork counter_comps 2 counter_page_at_comp)
     = Some ([None, Some (Host ''div''), Some (Fn 0), Some (Host ''h1'')],
             [None, Some 0, Some 1, Some 2], [Some 1, Some 2, Some 3, None],
             [None, None, None, None], [Some 0, Some 1, None, None],
             [CreateElement 1 ''div''])
   \<and> map_option fst (performUnitOfWork no_comps 5 one_item_at_div) = Some (Some 6)
   \<and> map_option (\<lambda>(n, s). (drop 4 (map parent (fibers s)), drop 4 (map child (fibers s)),
                            drop 4 (map dom' (fibers s)), map effectTag (fibers s),
                            deletions s, domLog s = domLog one_item_at_div))
        (performUnitOfWork no_comps 5 one_item_at_div)
     = Some ([None, Some 4, Some 5], [Some 5, Some 6, None], [Some 0, Some 1, Some 2],
             [None, Some PLACEMENT, Some PLACEMENT, Some DELETION, None, Some UPDATE,
              Some UPDATE],
             Some [3], True)"
proof -
  let ?s = counter_page_at_comp
  let ?f = "fibers ?s ! 2"
  let ?sm = "?s\<lparr>wipFiber := Some 2, hookIndex := 0,
                 fibers := (fibers ?s)[2 := ?f\<lparr>hooks := Some []\<rparr>]\<rparr>"
  define v where "v = fst (the (run_comp (counter_comps 0 (props ?f)) ?sm))"
  define s0 where "s0 = snd (the (run_comp (counter_comps 0 (props ?f)) ?sm))"
  have "\<not> Option.is_none (run_comp (counter_comps 0 (props ?f)) ?sm)" by code_simp
  then have run: "run_comp (counter_comps 0 (props ?f)) ?sm = Some (v, s0)"
    unfolding v_def s0_def by (simp add: is_none_collapse)
  have f: "fiber_at ?s 2 = Some ?f"
  proof -
    have "2 < length (fibers ?s)" by code_simp
    then show ?thesis by (simp add: fiber_at_def)
  qed
  have fc: "isFunctionComponent ?f" by code_simp
  have ty: "type ?f = Some (Fn 0)" by code_simp
  have tr: "list_all truthy [v]" unfolding v_def by code_simp
  have ds: "deletions s0 = Some []" unfolding s0_def by code_simp
  have alt: "alternate ?f = None" by code_simp
  have anc: "chain parent ?s (Some 2) [2, 1, 0]" by code_simp
  have l0: "length (fibers s0) = 3" unfolding s0_def by code_simp
  from performUnitOfWork_preorder [of ?s 2 ?f "[v]" v counter_comps s0 "[]" None "[]" "[2, 1, 0]"
      "reconciled s0 2 [v] [] []"] f fc ty run tr ds alt anc
  have "performUnitOfWork counter_comps 2 ?s
          = Some (preorder_next (reconciled s0 2 [v] [] []) [2, 1, 0], reconciled s0 2 [v] [] [])"
    and "preorder_next (reconciled s0 2 [v] [] []) [2, 1, 0] = Some (length (fibers s0))"
    by auto
  with l0 have 1: "map_option fst (performUnitOfWork counter_comps 2 ?s) = Some (Some 3)"
    by simp
  let ?t = one_item_at_div
  let ?g = "fibers ?t ! 5"
  have g: "fiber_at ?t 5 = Some ?g"
  proof -
    have "5 < length (fibers ?t)" by code_simp
    then show ?thesis by (simp add: fiber_at_def)
  qed
  have gh: "\<not> isFunctionComponent ?g" by code_simp
  have gp: "props ?g = Some [(''children'', JArr [createElement (Host ''h1'') None []])]"
    by code_simp
  have gd: "dom' ?g \<noteq> None" by code_simp
  have gt: "list_all truthy (flat [createElement (Host ''h1'') None []])" by code_simp
  have gds: "deletions ?t = Some []" by code_simp
  have galt: "alternate ?g = Some 1 \<and> 1 < length (fibers ?t) \<and> child (fibers ?t ! 1) = Some 2"
    by code_simp
  have gch: "chain sibling ?t (Some 2) [2, 3]" by code_simp
  have ganc: "chain parent ?t (Some 5) [5, 4]" by code_simp
  have gl: "length (fibers ?t) = 6" by code_simp
  from performUnitOfWork_preorder [of ?t 5 ?g "flat [createElement (Host ''h1'') None []]" JNull
      no_comps ?t "[]" "Some 2" "[2, 3]" "[5, 4]"
      "reconciled ?t 5 (flat [createElement (Host ''h1'') None []]) [2, 3] []"]
    g gh gp gd gt gds galt gch ganc
  have "performUnitOfWork no_comps 5 ?t
          = Some (preorder_next (reconciled ?t 5 (flat [createElement (Host ''h1'') None []]) [2, 3] [])
                    [5, 4],
                  reconciled ?t 5 (flat [createElement (Host ''h1'') None []]) [2, 3] [])"
    and "preorder_next (reconciled ?t 5 (flat [createElement (Host ''h1'') None []]) [2, 3] []) [5, 4]
          = Some (length (fibers ?t))"
    by (auto simp: flat_def createElement_def)
  with gl have 2: "map_option fst (performUnitOfWork no_comps 5 ?t) = Some (Some 6)"
    by simp
  have 3: "map_option (\<lambda>(n, s). (map type (fibers s), map parent (fibers s), map child (fibers s),
                            map sibling (fibers s), map dom' (fibers s), domLog s))
        (performUnitOfWork counter_comps 2 counter_page_at_comp)
     = Some ([None, Some (Host ''div''), Some (Fn 0), Some (Host ''h1'')],
             [None, Some 0, Some 1, Some 2], [Some 1, Some 2, Some 3, None],
             [None, None, None, None], [Some 0, Some 1, None, None],
             [CreateElement 1 ''div''])"
    by code_simp
  have 4: "map_option (\<lambda>(n, s). (drop 4 (map parent (fibers s)), drop 4 (map child (fibers s)),
                            drop 4 (map dom' (fibers s)), map effectTag (fibers s),
                            deletions s, domLog s = domLog one_item_at_div))
        (performUnitOfWork no_comps 5 one_item_at_div)
     = Some ([None, Some 4, Some 5], [Some 5, Some 6, None], [Some 0, Some 1, Some 2],
             [None, Some PLACEMENT, Some PLACEMENT, Some DELETION, None, Some UPDATE,
              Some UPDATE],
             Some [3], True)"
    by code_simp
  from 1 2 3 4 show ?thesis by simp
qed

end
